theory Spec2Isabelle
  imports Complex_Main "HOL-Library.Word" "HOL-Library.Log_Nat"
begin

section \<open>JavaScript values used by the loader and the audio manager\<close>

text \<open>
  Array indices and list positions are \<open>int\<close> (the source counts them in steps of one, far
  below \<open>2 ^ 53\<close>, where a double holds every integer), durations are \<open>real\<close>, and handles
  handed out by the browser are \<open>nat\<close>. The numbers the audio manager computes with are
  the doubles of JavaScript, defined next.
\<close>

subsection \<open>Numbers\<close>

text \<open>
  A JavaScript number is an IEEE 754 double: a finite value, one of the two infinities, or
  \<open>NaN\<close>. A finite double is \<open>m * 2 ^ e\<close> with \<open>\<bar>m\<bar> < 2 ^ 53\<close> and \<open>e\<close> from
  \<open>- 1074\<close> to \<open>971\<close>; \<open>Num\<close> is meant to be applied to such a value only, which the
  operations below see to for their results. The sign of zero is left out: \<open>-0\<close> and
  \<open>0\<close> are the same \<open>Num 0\<close>.
\<close>

datatype number = Num real | Infinity | MinusInfinity | NaN

text \<open>
  Every arithmetic operation gives the double nearest to the exact result, ties going to
  the even significand. \<open>exponent x\<close> is the binary exponent of the binade of \<open>x\<close> (that
  of the smallest normal number for anything below it), found from the bit length of
  \<open>\<bar>x\<bar>\<close> scaled to an integer; \<open>ulp x\<close> is the distance between two doubles of that
  binade. A result whose nearest value lies beyond the largest double becomes an infinity.
\<close>

definition exponent :: "real \<Rightarrow> int" where
  "exponent x = max (- 1022) (bitlen \<lfloor>\<bar>x\<bar> * 2 ^ 1074\<rfloor> - 1075)"

definition ulp :: "real \<Rightarrow> real" where
  "ulp x = 2 powi (exponent x - 52)"

definition round_half_even :: "real \<Rightarrow> int" where
  "round_half_even r =
     (if r - real_of_int \<lfloor>r\<rfloor> < 1 / 2 then \<lfloor>r\<rfloor>
      else if 1 / 2 < r - real_of_int \<lfloor>r\<rfloor> then \<lfloor>r\<rfloor> + 1
      else if even \<lfloor>r\<rfloor> then \<lfloor>r\<rfloor> else \<lfloor>r\<rfloor> + 1)"

definition nearest_double :: "real \<Rightarrow> real" where
  "nearest_double x = real_of_int (round_half_even (x / ulp x)) * ulp x"

definition MAX_VALUE :: real where
  "MAX_VALUE = (2 ^ 53 - 1) * 2 ^ 971"

definition to_number :: "real \<Rightarrow> number" where
  "to_number x =
     (if MAX_VALUE < nearest_double x then Infinity
      else if nearest_double x < - MAX_VALUE then MinusInfinity
      else Num (nearest_double x))"

text \<open>\<open>a + b\<close>, \<open>a * b\<close> and \<open>a / b\<close> of two numbers.\<close>

fun js_add :: "number \<Rightarrow> number \<Rightarrow> number" where
  "js_add (Num x) (Num y) = to_number (x + y)"
| "js_add NaN b = NaN"
| "js_add a NaN = NaN"
| "js_add Infinity MinusInfinity = NaN"
| "js_add MinusInfinity Infinity = NaN"
| "js_add Infinity b = Infinity"
| "js_add a Infinity = Infinity"
| "js_add MinusInfinity b = MinusInfinity"
| "js_add a MinusInfinity = MinusInfinity"

fun js_mul :: "number \<Rightarrow> number \<Rightarrow> number" where
  "js_mul (Num x) (Num y) = to_number (x * y)"
| "js_mul NaN b = NaN"
| "js_mul a NaN = NaN"
| "js_mul Infinity (Num y) = (if y = 0 then NaN else if 0 < y then Infinity else MinusInfinity)"
| "js_mul MinusInfinity (Num y) = (if y = 0 then NaN else if 0 < y then MinusInfinity else Infinity)"
| "js_mul (Num x) Infinity = (if x = 0 then NaN else if 0 < x then Infinity else MinusInfinity)"
| "js_mul (Num x) MinusInfinity = (if x = 0 then NaN else if 0 < x then MinusInfinity else Infinity)"
| "js_mul Infinity Infinity = Infinity"
| "js_mul MinusInfinity MinusInfinity = Infinity"
| "js_mul Infinity MinusInfinity = MinusInfinity"
| "js_mul MinusInfinity Infinity = MinusInfinity"

fun js_div :: "number \<Rightarrow> number \<Rightarrow> number" where
  "js_div (Num x) (Num y) =
     (if y = 0 then (if x = 0 then NaN else if 0 < x then Infinity else MinusInfinity)
      else to_number (x / y))"
| "js_div NaN b = NaN"
| "js_div a NaN = NaN"
| "js_div (Num x) Infinity = Num 0"
| "js_div (Num x) MinusInfinity = Num 0"
| "js_div Infinity (Num y) = (if 0 \<le> y then Infinity else MinusInfinity)"
| "js_div MinusInfinity (Num y) = (if 0 \<le> y then MinusInfinity else Infinity)"
| "js_div Infinity b = NaN"
| "js_div MinusInfinity b = NaN"

text \<open>
  \<open>a < b\<close> (false as soon as one side is \<open>NaN\<close>), and \<open>Math.max\<close>, \<open>Math.min\<close> and
  \<open>Math.floor\<close>, which answer \<open>NaN\<close> for a \<open>NaN\<close> argument.
\<close>

fun js_less :: "number \<Rightarrow> number \<Rightarrow> bool" where
  "js_less (Num x) (Num y) = (x < y)"
| "js_less NaN b = False"
| "js_less a NaN = False"
| "js_less a MinusInfinity = False"
| "js_less MinusInfinity b = True"
| "js_less Infinity b = False"
| "js_less a Infinity = True"

definition Math_max :: "number \<Rightarrow> number \<Rightarrow> number" where
  "Math_max a b = (if a = NaN \<or> b = NaN then NaN else if js_less a b then b else a)"

definition Math_min :: "number \<Rightarrow> number \<Rightarrow> number" where
  "Math_min a b = (if a = NaN \<or> b = NaN then NaN else if js_less b a then b else a)"

definition Math_floor :: "number \<Rightarrow> number" where
  "Math_floor v = (case v of Num x \<Rightarrow> Num (real_of_int \<lfloor>x\<rfloor>) | _ \<Rightarrow> v)"

subsection \<open>Remainder, indexing, truthiness and exceptions\<close>

text \<open>
  \<open>a % b\<close> of JavaScript: the remainder of the truncating division, with the sign of the
  dividend. The source only divides by \<open>loaded.length\<close>; for an empty list JavaScript
  gives \<open>NaN\<close> and this function gives \<open>a\<close>, and reading the empty list at either is
  \<open>undefined\<close>.
\<close>

definition js_rem :: "int \<Rightarrow> int \<Rightarrow> int" where
  "js_rem a b = (if a < 0 then - ((- a) mod \<bar>b\<bar>) else a mod \<bar>b\<bar>)"

text \<open>\<open>xs[i]\<close> of a JavaScript array: \<open>undefined\<close> (here \<open>None\<close>) outside the array.\<close>

definition js_index :: "'a list \<Rightarrow> int \<Rightarrow> 'a option" where
  "js_index xs i = (if 0 \<le> i \<and> i < int (length xs) then Some (xs ! nat i) else None)"

text \<open>
  Truthiness of a handle that is either \<open>null\<close> or a number: \<open>null\<close> and \<open>0\<close> are falsy.
\<close>

definition truthy :: "nat option \<Rightarrow> bool" where
  "truthy h = (case h of None \<Rightarrow> False | Some n \<Rightarrow> n \<noteq> 0)"

text \<open>
  A call either returns or throws; in both cases the state it has reached by then stays
  (JavaScript has no rollback).
\<close>

datatype exn = TypeError | NotAllowedError | NotFoundError | ModuleError string

datatype 'a outcome = Returned 'a | Thrown exn 'a

fun state_of :: "'a outcome \<Rightarrow> 'a" where
  "state_of (Returned s) = s"
| "state_of (Thrown e s) = s"

fun throws :: "'a outcome \<Rightarrow> bool" where
  "throws (Returned s) = False"
| "throws (Thrown e s) = True"

fun thrown :: "'a outcome \<Rightarrow> exn option" where
  "thrown (Returned s) = None"
| "thrown (Thrown e s) = Some e"

section \<open>Band Extractor: \<open>AudioManager.getAverageVolume\<close>\<close>

text \<open>
  The array argument is read only through \<open>array[i]\<close>, so it is modelled by that lookup:
  \<open>array i = None\<close> is \<open>undefined\<close> (an index outside the array, or a hole). A magnitude is
  a byte, as in the \<open>Uint8Array\<close> that \<open>startLoop\<close> passes, which is \<open>Uint8Array_at\<close> of its
  bytes.
\<close>

type_synonym magnitudes = "int \<Rightarrow> 8 word option"

definition Uint8Array_at :: "8 word list \<Rightarrow> magnitudes" where
  "Uint8Array_at bytes i = js_index bytes i"

text \<open>
  The \<open>for (let i = start; i < end; i++)\<close> loop with its two accumulators \<open>values\<close> and
  \<open>count\<close>, both numbers: \<open>values += array[i]\<close> and \<open>count++\<close> are additions of doubles.
  The index \<open>i\<close> is an integer: bin indices lie far below \<open>2 ^ 53\<close>, up to where \<open>i++\<close>
  is exact.
\<close>

function average_loop ::
  "magnitudes \<Rightarrow> int \<Rightarrow> int \<Rightarrow> number \<Rightarrow> number \<Rightarrow> number \<times> number" where
  "average_loop array i end' values count =
     (if i < end' then
        (case array i of
           Some v \<Rightarrow> average_loop array (i + 1) end'
                       (js_add values (Num (real (unat v)))) (js_add count (Num 1))
         | None \<Rightarrow> average_loop array (i + 1) end' values count)
      else (values, count))"
  by pat_completeness auto
termination
  by (relation "measure (\<lambda>(array, i, end', values, count). nat (end' - i))") auto

declare average_loop.simps [simp del]

text \<open>\<open>return count === 0 ? 0 : values / count\<close>.\<close>

definition getAverageVolume :: "magnitudes \<Rightarrow> int \<Rightarrow> int \<Rightarrow> number" where
  "getAverageVolume array start end' =
     (case average_loop array start end' (Num 0) (Num 0) of
        (values, count) \<Rightarrow> if count = Num 0 then Num 0 else js_div values count)"

text \<open>
  The claim's words, to compare with the code: the entries of the half-open range
  \<open>[start, end)\<close> that are defined, and their arithmetic mean (0 when there is none), a
  real number that need not be a double.
\<close>

definition defined_entries :: "magnitudes \<Rightarrow> int \<Rightarrow> int \<Rightarrow> nat list" where
  "defined_entries array start end' = map unat (List.map_filter array [start..end' - 1])"

definition mean_of_defined :: "magnitudes \<Rightarrow> int \<Rightarrow> int \<Rightarrow> real" where
  "mean_of_defined array start end' =
     (if defined_entries array start end' = [] then 0
      else real (sum_list (defined_entries array start end'))
             / real (length (defined_entries array start end')))"

section \<open>The browser: animation frames and timeouts\<close>

text \<open>
  \<open>requestAnimationFrame\<close> increments the window's callback identifier and hands the new
  value out as the handle, so a handle is never 0; the callback then waits in the list
  of pending callbacks until the next frame runs it or \<open>cancelAnimationFrame\<close> removes it.
\<close>

record frames =
  rafSeq :: nat
  rafPending :: "nat list"

definition requestAnimationFrame :: "frames \<Rightarrow> nat \<times> frames" where
  "requestAnimationFrame f =
     (Suc (rafSeq f), f\<lparr>rafSeq := Suc (rafSeq f), rafPending := rafPending f @ [Suc (rafSeq f)]\<rparr>)"

definition cancelAnimationFrame :: "nat \<Rightarrow> frames \<Rightarrow> frames" where
  "cancelAnimationFrame h f = f\<lparr>rafPending := removeAll h (rafPending f)\<rparr>"

text \<open>
  The only timeouts of the page are the loader's \<open>setTimeout(() => rotateNext(1), ms)\<close>, so
  a pending timeout is its id and its delay in milliseconds. \<open>clearTimeout(null)\<close> does
  nothing.
\<close>

record timeouts =
  timerSeq :: nat
  pending :: "(nat \<times> real) list"

definition setTimeout :: "real \<Rightarrow> timeouts \<Rightarrow> nat \<times> timeouts" where
  "setTimeout ms ts =
     (Suc (timerSeq ts), ts\<lparr>timerSeq := Suc (timerSeq ts), pending := pending ts @ [(Suc (timerSeq ts), ms)]\<rparr>)"

definition clearTimeout :: "nat option \<Rightarrow> timeouts \<Rightarrow> timeouts" where
  "clearTimeout h ts =
     (case h of None \<Rightarrow> ts | Some t \<Rightarrow> ts\<lparr>pending := filter (\<lambda>(t', ms). t' \<noteq> t) (pending ts)\<rparr>)"

section \<open>Module Lifecycle Contract\<close>

subsection \<open>\<open>TemplateAnimation\<close>\<close>

text \<open>
  The fields of a module object that its lifecycle reads and writes: the frame handle
  \<open>frameId\<close> (\<open>null\<close> or the handle of the pending draw callback), the layout state that
  \<open>resize\<close> keeps, and the three band values. \<open>rect\<close> is what
  \<open>canvas.getBoundingClientRect()\<close> answers (width and height). Drawing state (colours, the
  canvas bitmap) is left out, and the 2d context is taken to exist.
\<close>

record anim =
  frameId :: "nat option"
  initialized :: bool
  width :: int
  height :: int
  rect :: "real \<times> real"
  LOW :: number
  MID :: number
  HIGH :: number

type_synonym lifecycle_method = "anim \<times> frames \<Rightarrow> (anim \<times> frames) outcome"

type_synonym update_method = "number \<Rightarrow> number \<Rightarrow> number \<Rightarrow> anim \<Rightarrow> anim outcome"

text \<open>
  A module object carries its own methods (the loader tests each with
  \<open>typeof ... === 'function'\<close>, so a method may be absent). \<open>start\<close> and \<open>stop\<close> work on the
  object and the window's animation frames; \<open>updateFrequencies\<close> is a state update of the
  object alone.
\<close>

record module_instance =
  self :: anim
  start :: "lifecycle_method option"
  stop :: "lifecycle_method option"
  updateFrequencies :: "update_method option"

definition resize :: "anim \<Rightarrow> anim" where
  "resize a =
     (let rectW = \<lfloor>fst (rect a)\<rfloor>; rectH = \<lfloor>snd (rect a)\<rfloor> in
      if rectW \<le> 2 \<or> rectH \<le> 2 then a
      else
        (let a1 = a\<lparr>width := max 1 rectW, height := max 1 rectH\<rparr> in
         if \<not> initialized a1 \<and> width a1 > 40 \<and> height a1 > 40
         then a1\<lparr>initialized := True\<rparr> else a1))"

definition TemplateAnimation_updateFrequencies :: update_method where
  "TemplateAnimation_updateFrequencies low mid high a =
     Returned (a\<lparr>LOW := low, MID := mid, HIGH := high\<rparr>)"

definition TemplateAnimation_start :: lifecycle_method where
  "TemplateAnimation_start = (\<lambda>(a, f).
     if \<not> truthy (frameId a) then
       (let a1 = resize a in
        if \<not> initialized a1 then
          (case requestAnimationFrame f of (h, f1) \<Rightarrow> Returned (a1\<lparr>frameId := Some h\<rparr>, f1))
        else
          (case requestAnimationFrame f of (h, f1) \<Rightarrow> Returned (a1\<lparr>frameId := Some h\<rparr>, f1)))
     else Returned (a, f))"

definition TemplateAnimation_stop :: lifecycle_method where
  "TemplateAnimation_stop = (\<lambda>(a, f).
     if truthy (frameId a) then
       (case frameId a of
          Some h \<Rightarrow> Returned (a\<lparr>frameId := None\<rparr>, cancelAnimationFrame h f)
        | None \<Rightarrow> Returned (a, f))
     else Returned (a, f))"

text \<open>
  \<open>drawFrame\<close>, the callback that \<open>start\<close> registers: each run registers the next one and
  stores its handle (the drawing itself is left out). The browser takes a callback off
  the pending list when it runs it.
\<close>

definition TemplateAnimation_drawFrame :: "anim \<times> frames \<Rightarrow> anim \<times> frames" where
  "TemplateAnimation_drawFrame = (\<lambda>(a, f).
     if \<not> initialized a then
       (let a1 = resize a in
        case requestAnimationFrame f of (h, f1) \<Rightarrow> (a1\<lparr>frameId := Some h\<rparr>, f1))
     else (case requestAnimationFrame f of (h, f1) \<Rightarrow> (a\<lparr>frameId := Some h\<rparr>, f1)))"

definition run_frame_callback :: "nat \<Rightarrow> anim \<times> frames \<Rightarrow> anim \<times> frames" where
  "run_frame_callback h = (\<lambda>(a, f).
     if h \<in> set (rafPending f)
     then TemplateAnimation_drawFrame (a, f\<lparr>rafPending := removeAll h (rafPending f)\<rparr>)
     else (a, f))"

text \<open>\<open>new TemplateAnimation(canvas, config)\<close>: the fields, then one \<open>resize()\<close>.\<close>

definition TemplateAnimation :: "real \<times> real \<Rightarrow> module_instance" where
  "TemplateAnimation canvasRect =
     \<lparr>self = resize \<lparr>frameId = None, initialized = False, width = 0, height = 0,
                      rect = canvasRect, LOW = Num 0, MID = Num 0, HIGH = Num 0\<rparr>,
      start = Some TemplateAnimation_start,
      stop = Some TemplateAnimation_stop,
      updateFrequencies = Some TemplateAnimation_updateFrequencies\<rparr>"

text \<open>One call after the other, as in \<open>m.start(); m.start();\<close>: a throw ends the sequence.\<close>

definition and_then :: "'a outcome \<Rightarrow> ('a \<Rightarrow> 'a outcome) \<Rightarrow> 'a outcome" where
  "and_then r m = (case r of Returned s \<Rightarrow> m s | Thrown e s \<Rightarrow> Thrown e s)"

subsection \<open>The other modules of the repository\<close>

text \<open>
  The minimal module of the project's notes for module authors (\<open>ExampleAnimation\<close>):
  \<open>start\<close> is \<open>if (!this.frameId) this.frameId = requestAnimationFrame(this.draw)\<close> and
  \<open>stop\<close> is \<open>if (this.frameId) cancelAnimationFrame(this.frameId), this.frameId = null\<close>.
\<close>

definition ExampleAnimation_start :: lifecycle_method where
  "ExampleAnimation_start = (\<lambda>(a, f).
     if \<not> truthy (frameId a)
     then (case requestAnimationFrame f of (h, f1) \<Rightarrow> Returned (a\<lparr>frameId := Some h\<rparr>, f1))
     else Returned (a, f))"

definition ExampleAnimation_stop :: lifecycle_method where
  "ExampleAnimation_stop = (\<lambda>(a, f).
     if truthy (frameId a) then
       (case frameId a of
          Some h \<Rightarrow> Returned (a\<lparr>frameId := None\<rparr>, cancelAnimationFrame h f)
        | None \<Rightarrow> Returned (a, f))
     else Returned (a, f))"

text \<open>
  The first \<open>TemplateAnimation\<close>: its \<open>start\<close> calls \<open>drawFrame\<close> itself, and \<open>drawFrame\<close>
  draws and then registers the next frame; its \<open>stop\<close> is the one above.
\<close>

definition TemplateAnimation_v1_drawFrame :: "anim \<times> frames \<Rightarrow> anim \<times> frames" where
  "TemplateAnimation_v1_drawFrame = (\<lambda>(a, f).
     case requestAnimationFrame f of (h, f1) \<Rightarrow> (a\<lparr>frameId := Some h\<rparr>, f1))"

definition TemplateAnimation_v1_start :: lifecycle_method where
  "TemplateAnimation_v1_start = (\<lambda>(a, f).
     if \<not> truthy (frameId a) then Returned (TemplateAnimation_v1_drawFrame (a, f))
     else Returned (a, f))"

text \<open>
  The renderers (hacker terminal, pong, radar scan, synthwave run, tank drive, pachinko)
  share one shape. \<open>start\<close> first sizes the canvas and initialises the scene, whether the
  module runs or not, and then registers \<open>draw\<close> behind \<open>!this.frameId\<close>, the WebGL
  renderers behind \<open>!this.frameId && this.webglSupported\<close>. \<open>stop\<close> cancels behind
  \<open>this.frameId\<close> and then, in the WebGL renderers, releases the scene. What is prepared
  and released differs from one renderer to the next and is a parameter here, taken to
  return; none of these steps assigns \<open>frameId\<close>.
\<close>

definition renderer_start :: "(anim \<Rightarrow> anim) \<Rightarrow> (anim \<Rightarrow> bool) \<Rightarrow> lifecycle_method" where
  "renderer_start prepare webglSupported = (\<lambda>(a, f).
     let a1 = prepare a in
     if \<not> truthy (frameId a1) \<and> webglSupported a1
     then (case requestAnimationFrame f of (h, f1) \<Rightarrow> Returned (a1\<lparr>frameId := Some h\<rparr>, f1))
     else Returned (a1, f))"

definition renderer_stop :: "(anim \<Rightarrow> anim) \<Rightarrow> lifecycle_method" where
  "renderer_stop release = (\<lambda>(a, f).
     if truthy (frameId a) then
       (case frameId a of
          Some h \<Rightarrow> Returned (release (a\<lparr>frameId := None\<rparr>), cancelAnimationFrame h f)
        | None \<Rightarrow> Returned (release a, f))
     else Returned (release a, f))"

subsection \<open>The contract\<close>

text \<open>
  The least the rotation needs of a module, whatever it does to the pending callbacks:
  \<open>start\<close> returns with a frame handle held, and \<open>stop\<close> returns with none held.
\<close>

definition holds_and_releases :: "lifecycle_method \<Rightarrow> lifecycle_method \<Rightarrow> bool" where
  "holds_and_releases start_m stop_m =
     (\<forall>a f.
        (\<exists>a' f'. start_m (a, f) = Returned (a', f') \<and> truthy (frameId a'))
      \<and> (\<exists>a' f'. stop_m (a, f) = Returned (a', f') \<and> \<not> truthy (frameId a')))"

text \<open>
  The contract itself, as the notes for module authors put it (\<open>start()\<close> must use
  \<open>requestAnimationFrame\<close> and set \<open>this.frameId\<close>; \<open>stop()\<close> must
  \<open>cancelAnimationFrame(this.frameId)\<close> and set \<open>this.frameId = null\<close>) and as their example
  guards it, in terms of the frame handle and of the window's pending callbacks (the rest
  of the object is the module's own business). \<open>start\<close> returns; on a module that holds
  no handle it registers one callback and keeps its handle in \<open>frameId\<close>, on a module
  that holds one it registers nothing and keeps the handle. \<open>stop\<close> returns; on a module
  that holds a handle it cancels that callback and sets \<open>frameId\<close> to \<open>null\<close>, on a
  module that holds none it leaves both alone.
\<close>

definition lifecycle_contract :: "lifecycle_method \<Rightarrow> lifecycle_method \<Rightarrow> bool" where
  "lifecycle_contract start_m stop_m =
     (\<forall>a f.
        (\<exists>a'. start_m (a, f) =
                 Returned (a', if truthy (frameId a) then f else snd (requestAnimationFrame f))
             \<and> frameId a' = (if truthy (frameId a) then frameId a
                              else Some (fst (requestAnimationFrame f))))
      \<and> (\<exists>a'. stop_m (a, f) =
                 Returned (a', case frameId a of
                                 None \<Rightarrow> f
                               | Some h \<Rightarrow> if h = 0 then f else cancelAnimationFrame h f)
             \<and> frameId a' = (if truthy (frameId a) then None else frameId a)))"

section \<open>Rotation Controller: the closure of \<open>init\<close> in \<open>index.js\<close>\<close>

text \<open>
  An entry of \<open>loaded\<close> is \<open>{ slug, view, instance, config }\<close>. The view always exists
  (an entry without one is never pushed), so it is modelled by its \<open>style.display\<close>;
  \<open>item_instance\<close> is \<open>null\<close> for an entry whose canvas or class was missing;
  \<open>config_duration\<close> is \<open>config.duration\<close> in seconds, \<open>None\<close> when the manifest gives none.
\<close>

datatype display = DisplayInitial | DisplayNone | DisplayBlock

record item =
  slug :: string
  view_display :: display
  item_instance :: "module_instance option"
  config_duration :: "real option"

text \<open>
  The variables of the closure, and the parts of \<open>window\<close> the loader writes. Entries of
  \<open>loaded\<close> are never replaced or reordered, so the references \<open>currentItem\<close> and
  \<open>window.currentAnimation\<close> are modelled by the position of their entry (\<open>None\<close> is
  \<open>null\<close>).
\<close>

record page =
  loaded :: "item list"
  currentIndex :: int
  currentItem :: "nat option"
  rotationTimer :: "nat option"
  paused :: bool
  window_currentAnimation :: "nat option"
  window_frames :: frames
  window_timeouts :: timeouts

definition DEFAULT_DURATION :: real where
  "DEFAULT_DURATION = 8"

text \<open>
  \<open>item.instance.m()\<close> behind its guard \<open>item.instance && typeof item.instance.m ===
  'function'\<close>, for the entry at position \<open>k\<close>: the object and the animation frames are
  written back whether the method returns or throws.
\<close>

definition store_instance :: "nat \<Rightarrow> module_instance \<Rightarrow> anim \<times> frames \<Rightarrow> page \<Rightarrow> page" where
  "store_instance k inst af p =
     p\<lparr>loaded := (loaded p)[k := (loaded p ! k)\<lparr>item_instance := Some (inst\<lparr>self := fst af\<rparr>)\<rparr>],
       window_frames := snd af\<rparr>"

definition call_lifecycle ::
  "(module_instance \<Rightarrow> lifecycle_method option) \<Rightarrow> nat \<Rightarrow> page \<Rightarrow> page outcome" where
  "call_lifecycle method k p =
     (case js_index (loaded p) (int k) of
        None \<Rightarrow> Returned p
      | Some it \<Rightarrow>
          (case item_instance it of
             None \<Rightarrow> Returned p
           | Some inst \<Rightarrow>
               (case method inst of
                  None \<Rightarrow> Returned p
                | Some m \<Rightarrow>
                    (case m (self inst, window_frames p) of
                       Returned af \<Rightarrow> Returned (store_instance k inst af p)
                     | Thrown e af \<Rightarrow> Thrown e (store_instance k inst af p)))))"

definition hideAll :: "page \<Rightarrow> page" where
  "hideAll p = p\<lparr>loaded := map (\<lambda>it. it\<lparr>view_display := DisplayNone\<rparr>) (loaded p)\<rparr>"

definition showIndex :: "int \<Rightarrow> page \<Rightarrow> page outcome" where
  "showIndex index p =
     (case (case currentItem p of None \<Rightarrow> Returned p | Some k \<Rightarrow> call_lifecycle stop k p) of
        Thrown e p1 \<Rightarrow> Thrown e p1
      | Returned p1 \<Rightarrow>
          (let p2 = hideAll p1 in
           case js_index (loaded p2) index of
             None \<Rightarrow> Returned p2
           | Some it \<Rightarrow>
               (let p3 = p2\<lparr>loaded := (loaded p2)[nat index := it\<lparr>view_display := DisplayBlock\<rparr>]\<rparr> in
                case call_lifecycle start (nat index) p3 of
                  Thrown e p4 \<Rightarrow> Thrown e p4
                | Returned p4 \<Rightarrow>
                    Returned (p4\<lparr>window_currentAnimation :=
                                    (if item_instance it = None then None else Some (nat index)),
                                  currentItem := Some (nat index),
                                  currentIndex := index\<rparr>))))"

text \<open>\<open>(item && item.config && item.config.duration) || DEFAULT_DURATION\<close>: 0 is falsy.\<close>

definition item_duration :: "item option \<Rightarrow> real" where
  "item_duration it =
     (case it of
        None \<Rightarrow> DEFAULT_DURATION
      | Some i \<Rightarrow>
          (case config_duration i of
             None \<Rightarrow> DEFAULT_DURATION
           | Some d \<Rightarrow> if d = 0 then DEFAULT_DURATION else d))"

text \<open>\<open>rotationTimer = setTimeout(() => rotateNext(1), duration * 1000)\<close>.\<close>

definition schedule :: "real \<Rightarrow> page \<Rightarrow> page" where
  "schedule duration p =
     (case setTimeout (duration * 1000) (window_timeouts p) of
        (t, ts) \<Rightarrow> p\<lparr>rotationTimer := Some t, window_timeouts := ts\<rparr>)"

text \<open>\<open>rotationTimer && clearTimeout(rotationTimer)\<close>.\<close>

definition clear_if_set :: "page \<Rightarrow> page" where
  "clear_if_set p =
     (if truthy (rotationTimer p)
      then p\<lparr>window_timeouts := clearTimeout (rotationTimer p) (window_timeouts p)\<rparr>
      else p)"

definition rotateNext :: "int \<Rightarrow> page \<Rightarrow> page outcome" where
  "rotateNext step p =
     (let next = js_rem (currentIndex p + step + int (length (loaded p))) (int (length (loaded p))) in
      case showIndex next p of
        Thrown e p1 \<Rightarrow> Thrown e p1
      | Returned p1 \<Rightarrow>
          (let nextItem = js_index (loaded p1) next;
               duration = item_duration nextItem;
               p2 = clear_if_set p1
           in if \<not> paused p2 then Returned (schedule duration p2) else Returned p2))"

text \<open>The click handlers of the previous, next and pause buttons.\<close>

definition prev_click :: "page \<Rightarrow> page outcome" where
  "prev_click p = rotateNext (- 1) (p\<lparr>paused := False\<rparr>)"

definition next_click :: "page \<Rightarrow> page outcome" where
  "next_click p = rotateNext 1 (p\<lparr>paused := False\<rparr>)"

definition pause_click :: "page \<Rightarrow> page" where
  "pause_click p =
     (let p1 = p\<lparr>paused := \<not> paused p\<rparr> in
      if paused p1 then
        p1\<lparr>window_timeouts := clearTimeout (rotationTimer p1) (window_timeouts p1),
           rotationTimer := None\<rparr>
      else
        (let nextIndex = js_rem (currentIndex p1 + 1) (int (length (loaded p1)));
             nextItem = js_index (loaded p1) nextIndex;
             duration = item_duration nextItem
         in schedule duration (clear_if_set p1)))"

text \<open>
  The browser runs a timeout only while it is pending, and takes it off the list when it
  runs it; the callback is \<open>() => rotateNext(1)\<close>.
\<close>

definition timeout_fires :: "nat \<Rightarrow> page \<Rightarrow> page outcome" where
  "timeout_fires t p =
     (if t \<in> set (map fst (pending (window_timeouts p)))
      then rotateNext 1
             (p\<lparr>window_timeouts := clearTimeout (Some t) (window_timeouts p)\<rparr>)
      else Returned p)"

text \<open>
  The end of \<open>init\<close>: with no entry loaded it reports \<open>No animations loaded\<close> and returns
  before the closure exists (\<open>None\<close>); otherwise the closure variables are initialised,
  entry 0 is shown and the first timeout is scheduled from \<open>currentItem\<close>.
\<close>

definition init_page :: "item list \<Rightarrow> frames \<Rightarrow> page" where
  "init_page entries f =
     \<lparr>loaded = entries, currentIndex = 0, currentItem = None, rotationTimer = None,
      paused = False, window_currentAnimation = None, window_frames = f,
      window_timeouts = \<lparr>timerSeq = 0, pending = []\<rparr>\<rparr>"

definition startup :: "item list \<Rightarrow> frames \<Rightarrow> page outcome" where
  "startup entries f =
     (case showIndex 0 (init_page entries f) of
        Thrown e p \<Rightarrow> Thrown e p
      | Returned p \<Rightarrow>
          Returned (schedule
            (item_duration (case currentItem p of None \<Rightarrow> None
                            | Some k \<Rightarrow> js_index (loaded p) (int k))) p))"

definition init :: "item list \<Rightarrow> frames \<Rightarrow> page outcome option" where
  "init entries f = (if length entries = 0 then None else Some (startup entries f))"

text \<open>
  What can happen to the page after \<open>init\<close>: a click on one of the three buttons, a
  pending timeout that runs, a call of \<open>window.rotateNext\<close> (\<open>init\<close> exposes it), and a
  call of \<open>showIndex\<close> on its own. An exception that leaves a handler is reported by the
  browser and the page goes on from the state reached.
\<close>

datatype event =
  PrevClick | NextClick | PauseClick | TimeoutFires nat | RotateNextCall int | ShowIndexCall int

fun handle_event :: "event \<Rightarrow> page \<Rightarrow> page" where
  "handle_event PrevClick p = state_of (prev_click p)"
| "handle_event NextClick p = state_of (next_click p)"
| "handle_event PauseClick p = pause_click p"
| "handle_event (TimeoutFires t) p = state_of (timeout_fires t p)"
| "handle_event (RotateNextCall step) p = state_of (rotateNext step p)"
| "handle_event (ShowIndexCall i) p = state_of (showIndex i p)"

definition run_events :: "event list \<Rightarrow> page \<Rightarrow> page" where
  "run_events es p = fold handle_event es p"

text \<open>
  A module is Running when it holds a frame handle (\<open>frameId\<close> is truthy); an entry
  without an instance has nothing that could run.
\<close>

definition item_running :: "item \<Rightarrow> bool" where
  "item_running it =
     (case item_instance it of None \<Rightarrow> False | Some inst \<Rightarrow> truthy (frameId (self inst)))"

definition running_count :: "page \<Rightarrow> nat" where
  "running_count p = length (filter item_running (loaded p))"

section \<open>Signal Source Switch: \<open>AudioManager\<close>\<close>

text \<open>
  The capture side of the browser: \<open>getUserMedia\<close> numbers the streams it hands out, and
  \<open>liveStreams\<close> are those whose tracks have not been stopped, the device capture handles
  held at the moment. \<open>newContextState\<close> is the state the browser gives a new
  \<open>AudioContext\<close> (its autoplay policy decides). \<open>suspend()\<close> and \<open>resume()\<close> are taken to
  change the state at once.
\<close>

datatype ctx_state = Suspended | Running | Closed

record media =
  streamSeq :: nat
  liveStreams :: "nat list"
  newContextState :: ctx_state

text \<open>
  The fields of the class. \<open>audioCtx\<close> is \<open>null\<close> or a context in some state; \<open>analyser\<close> is
  \<open>null\<close> or an \<open>AnalyserNode\<close>, modelled by the source nodes connected to it; a source node
  and a stream are named by the number of the stream.
\<close>

record audio_manager =
  audioCtx :: "ctx_state option"
  analyser :: "nat list option"
  source :: "nat option"
  stream :: "nat option"
  dataArray :: "8 word list option"
  isLive :: bool
  isTestMode :: bool
  rafId :: "nat option"
  bassRange :: "int \<times> int"
  midRange :: "int \<times> int"
  highRange :: "int \<times> int"

definition new_AudioManager :: audio_manager where
  "new_AudioManager =
     \<lparr>audioCtx = None, analyser = None, source = None, stream = None, dataArray = None,
      isLive = False, isTestMode = True, rafId = None,
      bassRange = (0, 10), midRange = (11, 100), highRange = (101, 500)\<rparr>"

definition setTestMode :: "bool \<Rightarrow> audio_manager \<Rightarrow> audio_manager" where
  "setTestMode enabled am =
     (let am1 = am\<lparr>isTestMode := enabled\<rparr> in
      case audioCtx am1 of
        None \<Rightarrow> am1
      | Some c \<Rightarrow>
          if enabled \<and> c = Running then am1\<lparr>audioCtx := Some Suspended\<rparr>
          else if \<not> enabled \<and> c = Suspended then am1\<lparr>audioCtx := Some Running\<rparr>
          else am1)"

text \<open>
  What \<open>await navigator.mediaDevices.getUserMedia(constraints)\<close> answers: a new stream, or
  an exception (permission denied, no such device, no \<open>mediaDevices\<close>). The device id only
  goes into the constraints, so it is part of what decides this answer.
\<close>

datatype permission = Granted | Refused exn

text \<open>
  \<open>enableLiveInput\<close> up to its \<open>await\<close>: steps 1 and 2 of the source, which run in one
  piece. The fft size is 2048, so the byte array has 1024 entries.
\<close>

definition enableLiveInput_begin :: "audio_manager \<times> media \<Rightarrow> audio_manager \<times> media" where
  "enableLiveInput_begin = (\<lambda>(am, md).
     let am1 = (if audioCtx am = None
                then am\<lparr>audioCtx := Some (newContextState md), analyser := Some [],
                        dataArray := Some (replicate 1024 0)\<rparr>
                else am);
         md1 = (case stream am1 of
                  None \<Rightarrow> md
                | Some s \<Rightarrow> md\<lparr>liveStreams := removeAll s (liveStreams md)\<rparr>);
         am2 = (case source am1 of
                  None \<Rightarrow> am1
                | Some src \<Rightarrow> am1\<lparr>analyser := map_option (removeAll src) (analyser am1)\<rparr>)
     in (am2, md1))"

text \<open>
  \<open>enableLiveInput\<close> from the answer of \<open>getUserMedia\<close> on: steps 4 and 5, or the \<open>catch\<close>
  block. The result is the boolean the caller gets. A \<open>null\<close> context or analyser would
  throw a \<open>TypeError\<close> inside the \<open>try\<close>, which the \<open>catch\<close> turns into \<open>false\<close>.
\<close>

definition enableLiveInput_resume ::
  "permission \<Rightarrow> audio_manager \<times> media \<Rightarrow> bool \<times> audio_manager \<times> media" where
  "enableLiveInput_resume perm = (\<lambda>(am, md).
     case perm of
       Refused e \<Rightarrow> (False, am, md)
     | Granted \<Rightarrow>
         (let s = Suc (streamSeq md);
              md1 = md\<lparr>streamSeq := s, liveStreams := liveStreams md @ [s]\<rparr>;
              am1 = am\<lparr>stream := Some s\<rparr>
          in case audioCtx am1 of
               None \<Rightarrow> (False, am1, md1)
             | Some c \<Rightarrow>
                 (let am2 = am1\<lparr>source := Some s\<rparr> in
                  case analyser am2 of
                    None \<Rightarrow> (False, am2, md1)
                  | Some inputs \<Rightarrow>
                      (let am3 = am2\<lparr>analyser := Some (inputs @ [s]), isLive := True,
                                       isTestMode := False\<rparr>;
                           am4 = (if c = Suspended then am3\<lparr>audioCtx := Some Running\<rparr> else am3)
                       in (True, am4, md1)))))"

text \<open>A call of \<open>enableLiveInput\<close> that runs to its end before anything else happens.\<close>

definition enableLiveInput ::
  "permission \<Rightarrow> audio_manager \<times> media \<Rightarrow> bool \<times> audio_manager \<times> media" where
  "enableLiveInput perm s = enableLiveInput_resume perm (enableLiveInput_begin s)"

text \<open>
  The requests that switch the source: the test-mode checkbox and the microphone controls.
\<close>

datatype audio_event = SetTestMode bool | EnableLiveInput permission

fun audio_step :: "audio_event \<Rightarrow> audio_manager \<times> media \<Rightarrow> audio_manager \<times> media" where
  "audio_step (SetTestMode enabled) (am, md) = (setTestMode enabled am, md)"
| "audio_step (EnableLiveInput perm) (am, md) = snd (enableLiveInput perm (am, md))"

definition run_audio :: "audio_event list \<Rightarrow> audio_manager \<times> media \<Rightarrow> audio_manager \<times> media" where
  "run_audio es s = fold audio_step es s"

definition no_capture :: "ctx_state \<Rightarrow> media" where
  "no_capture c = \<lparr>streamSeq = 0, liveStreams = [], newContextState = c\<rparr>"

section \<open>Frame Normalizer and Distribution Loop: \<open>AudioManager.startLoop\<close>\<close>

text \<open>
  What a tick reads from outside: the three results of \<open>Math.random()\<close> (doubles from 0
  up to, but not including, 1; the model lets them be any finite value) and the bytes the
  analyser has for \<open>getByteFrequencyData\<close>, which overwrite the front of the array passed.
\<close>

record tick_input =
  math_random :: "real \<times> real \<times> real"
  frequencyData :: "8 word list"

definition getByteFrequencyData :: "8 word list \<Rightarrow> 8 word list \<Rightarrow> 8 word list" where
  "getByteFrequencyData fd array = take (length array) fd @ drop (length fd) array"

text \<open>
  The raw band values of a tick, before clamping: the synthetic triple
  \<open>Math.random() * 100\<close>, or the scaled averages \<open>(avg / 255) * 100\<close> of the three bin
  ranges with the high band boosted by the double nearest to \<open>1.2\<close>. \<open>None\<close> is
  the \<open>TypeError\<close> of calling into a \<open>null\<close> analyser or array.
\<close>

definition read_bands ::
  "tick_input \<Rightarrow> audio_manager \<Rightarrow> ((number \<times> number \<times> number) \<times> audio_manager) option" where
  "read_bands inp am =
     (if isTestMode am \<or> \<not> isLive am then
        (case math_random inp of
           (r1, r2, r3) \<Rightarrow>
             Some ((js_mul (Num r1) (Num 100), js_mul (Num r2) (Num 100),
                    js_mul (Num r3) (Num 100)), am))
      else
        (case analyser am of
           None \<Rightarrow> None
         | Some inputs \<Rightarrow>
             (case dataArray am of
                None \<Rightarrow> None
              | Some d \<Rightarrow>
                  (let d1 = getByteFrequencyData (frequencyData inp) d;
                       bassAvg = getAverageVolume (Uint8Array_at d1) (fst (bassRange am)) (snd (bassRange am));
                       midAvg = getAverageVolume (Uint8Array_at d1) (fst (midRange am)) (snd (midRange am));
                       highAvg = getAverageVolume (Uint8Array_at d1) (fst (highRange am)) (snd (highRange am))
                   in Some ((js_mul (js_div bassAvg (Num 255)) (Num 100),
                             js_mul (js_div midAvg (Num 255)) (Num 100),
                             js_mul (js_mul (js_div highAvg (Num 255)) (Num 100))
                               (to_number 1.2)),
                            am\<lparr>dataArray := Some d1\<rparr>)))))"

text \<open>\<open>Math.min(100, Math.max(0, v))\<close>, and the three \<open>Math.floor\<close> of the delivery.\<close>

definition clamp :: "number \<Rightarrow> number" where
  "clamp v = Math_min (Num 100) (Math_max (Num 0) v)"

definition normalize_bands :: "number \<times> number \<times> number \<Rightarrow> number \<times> number \<times> number" where
  "normalize_bands =
     (\<lambda>(low, mid, high). (Math_floor (clamp low), Math_floor (clamp mid), Math_floor (clamp high)))"

text \<open>A band value as the modules are promised it: an integer from 0 to 100.\<close>

definition band_value :: "number \<Rightarrow> bool" where
  "band_value v =
     (case v of Num x \<Rightarrow> x = real_of_int \<lfloor>x\<rfloor> \<and> 0 \<le> x \<and> x \<le> 100 | _ \<Rightarrow> False)"

text \<open>The three arguments a tick passes to \<open>updateFrequencies\<close>.\<close>

definition band_sample ::
  "tick_input \<Rightarrow> audio_manager \<Rightarrow> (number \<times> number \<times> number) option" where
  "band_sample inp am = map_option (\<lambda>(bands, am'). normalize_bands bands) (read_bands inp am)"

text \<open>
  \<open>window.currentAnimation.updateFrequencies(low, mid, high)\<close> behind its guard. The call is
  not inside a \<open>try\<close>.
\<close>

definition deliver :: "number \<times> number \<times> number \<Rightarrow> page \<Rightarrow> page outcome" where
  "deliver sample p =
     (case window_currentAnimation p of
        None \<Rightarrow> Returned p
      | Some k \<Rightarrow>
          (case js_index (loaded p) (int k) of
             None \<Rightarrow> Returned p
           | Some it \<Rightarrow>
               (case item_instance it of
                  None \<Rightarrow> Returned p
                | Some inst \<Rightarrow>
                    (case updateFrequencies inst of
                       None \<Rightarrow> Returned p
                     | Some u \<Rightarrow>
                         (case sample of (low, mid, high) \<Rightarrow>
                            (case u low mid high (self inst) of
                               Returned a \<Rightarrow>
                                 Returned (store_instance k inst (a, window_frames p) p)
                             | Thrown e a \<Rightarrow>
                                 Thrown e (store_instance k inst (a, window_frames p) p)))))))"

text \<open>One run of the \<open>loop\<close> callback of \<open>startLoop\<close>.\<close>

definition loop :: "tick_input \<Rightarrow> audio_manager \<times> page \<Rightarrow> (audio_manager \<times> page) outcome" where
  "loop inp = (\<lambda>(am, p).
     case requestAnimationFrame (window_frames p) of
       (h, f1) \<Rightarrow>
         (let am1 = am\<lparr>rafId := Some h\<rparr>;
              p1 = p\<lparr>window_frames := f1\<rparr>
          in case read_bands inp am1 of
               None \<Rightarrow> Thrown TypeError (am1, p1)
             | Some (bands, am2) \<Rightarrow>
                 (case deliver (normalize_bands bands) p1 of
                    Returned p2 \<Rightarrow> Returned (am2, p2)
                  | Thrown e p2 \<Rightarrow> Thrown e (am2, p2))))"

section \<open>Predicates on pages used in the properties\<close>

text \<open>
  Every pending timeout is the one \<open>rotationTimer\<close> names (and that handle is a real one,
  never 0), and while rotation is paused no timeout is pending.
\<close>

definition tracked :: "page \<Rightarrow> bool" where
  "tracked p =
     ((\<forall>t \<in> set (map fst (pending (window_timeouts p))). rotationTimer p = Some t)
      \<and> rotationTimer p \<noteq> Some 0)"

definition timers_tracked :: "page \<Rightarrow> bool" where
  "timers_tracked p = (tracked p \<and> (paused p \<longrightarrow> pending (window_timeouts p) = []))"

text \<open>Two pages agree on everything that rotation timing reads.\<close>

definition same_controls :: "page \<Rightarrow> page \<Rightarrow> bool" where
  "same_controls p q =
     (rotationTimer q = rotationTimer p \<and> paused q = paused p
      \<and> window_timeouts q = window_timeouts p
      \<and> length (loaded q) = length (loaded p))"

text \<open>
  A page whose modules can all be switched on and off (each instance has a \<open>start\<close> and a
  \<open>stop\<close>, and the two hold and release the frame handle); a page whose modules all meet
  the lifecycle contract; a page where no module but the one \<open>currentItem\<close> names is
  Running; and a page whose current entry is the one at \<open>currentIndex\<close>, Running if it has
  an instance.
\<close>

definition switchable_item :: "item \<Rightarrow> bool" where
  "switchable_item it =
     (case item_instance it of
        None \<Rightarrow> True
      | Some inst \<Rightarrow>
          (case start inst of
             None \<Rightarrow> False
           | Some start_m \<Rightarrow>
               (case stop inst of
                  None \<Rightarrow> False
                | Some stop_m \<Rightarrow> holds_and_releases start_m stop_m)))"

definition switchable_modules :: "item list \<Rightarrow> bool" where
  "switchable_modules entries = (\<forall>it \<in> set entries. switchable_item it)"

definition conforming_item :: "item \<Rightarrow> bool" where
  "conforming_item it =
     (case item_instance it of
        None \<Rightarrow> True
      | Some inst \<Rightarrow>
          (case start inst of
             None \<Rightarrow> False
           | Some start_m \<Rightarrow>
               (case stop inst of
                  None \<Rightarrow> False
                | Some stop_m \<Rightarrow> lifecycle_contract start_m stop_m)))"

definition conforming_modules :: "item list \<Rightarrow> bool" where
  "conforming_modules entries = (\<forall>it \<in> set entries. conforming_item it)"

definition only_current_runs :: "page \<Rightarrow> bool" where
  "only_current_runs p =
     (switchable_modules (loaded p)
      \<and> (\<forall>j < length (loaded p). item_running (loaded p ! j) \<longrightarrow> currentItem p = Some j)
      \<and> (\<forall>k. currentItem p = Some k \<longrightarrow> k < length (loaded p)))"

definition current_shown :: "page \<Rightarrow> bool" where
  "current_shown p =
     (only_current_runs p
      \<and> 0 \<le> currentIndex p \<and> currentIndex p < int (length (loaded p))
      \<and> currentItem p = Some (nat (currentIndex p))
      \<and> (item_instance (loaded p ! nat (currentIndex p)) \<noteq> None
           \<longrightarrow> item_running (loaded p ! nat (currentIndex p))))"

text \<open>
  The frame handles the modules of the page hold, in the order of \<open>loaded\<close>. The window's
  frames are well formed when no handle is pending twice and none is ahead of the
  counter, as in a browser. The page owns its frames over \<open>base\<close> when its modules meet
  the contract and the pending callbacks are those of \<open>base\<close> followed by the ones whose
  handles the modules hold.
\<close>

definition handles_of :: "item \<Rightarrow> nat list" where
  "handles_of it =
     (case item_instance it of
        None \<Rightarrow> []
      | Some inst \<Rightarrow>
          (case frameId (self inst) of None \<Rightarrow> [] | Some h \<Rightarrow> if h = 0 then [] else [h]))"

definition held_handles :: "item list \<Rightarrow> nat list" where
  "held_handles entries = concat (map handles_of entries)"

definition wellformed_frames :: "frames \<Rightarrow> bool" where
  "wellformed_frames f = (distinct (rafPending f) \<and> (\<forall>h \<in> set (rafPending f). h \<le> rafSeq f))"

definition frames_owned :: "nat list \<Rightarrow> page \<Rightarrow> bool" where
  "frames_owned base p =
     (conforming_modules (loaded p)
      \<and> rafPending (window_frames p) = base @ held_handles (loaded p)
      \<and> wellformed_frames (window_frames p))"

text \<open>
  What two pages can have in common: the current entry; which entries have an instance;
  the list, the current entry and the frames; the configured durations.
\<close>

definition same_rotation :: "page \<Rightarrow> page \<Rightarrow> bool" where
  "same_rotation p q = (currentIndex q = currentIndex p \<and> currentItem q = currentItem p)"

definition instances_kept :: "page \<Rightarrow> page \<Rightarrow> bool" where
  "instances_kept p q =
     (map (\<lambda>it. item_instance it = None) (loaded q) = map (\<lambda>it. item_instance it = None) (loaded p))"

definition same_modules :: "page \<Rightarrow> page \<Rightarrow> bool" where
  "same_modules p q =
     (loaded q = loaded p \<and> currentIndex q = currentIndex p \<and> currentItem q = currentItem p
      \<and> window_frames q = window_frames p)"

definition durations_kept :: "page \<Rightarrow> page \<Rightarrow> bool" where
  "durations_kept p q = (map config_duration (loaded q) = map config_duration (loaded p))"

text \<open>
  Calls that stay inside \<open>loaded\<close>: \<open>showIndex\<close> with an index of the list, and \<open>rotateNext\<close>
  with a step that is not below \<open>- loaded.length\<close> (a smaller step makes the remainder, and
  with it the index, negative).
\<close>

fun valid_event :: "nat \<Rightarrow> event \<Rightarrow> bool" where
  "valid_event n (ShowIndexCall i) = (0 \<le> i \<and> i < int n)"
| "valid_event n (RotateNextCall step) = (- int n \<le> step)"
| "valid_event n ev = True"

text \<open>
  At most one stream is live, and it is the one the manager's \<open>stream\<close> field names.
\<close>

definition one_handle :: "audio_manager \<times> media \<Rightarrow> bool" where
  "one_handle = (\<lambda>(am, md).
     liveStreams md = [] \<or> (\<exists>s. liveStreams md = [s] \<and> stream am = Some s))"

section \<open>Example pages and managers\<close>

text \<open>
  Two entries: a \<open>TemplateAnimation\<close> shown for 5 seconds, and an entry whose class was
  missing from its module (instance \<open>null\<close>) with 3 seconds. The audio loop has already
  registered its first animation frame.
\<close>

definition example_entries :: "item list" where
  "example_entries =
     [\<lparr>slug = ''template'', view_display = DisplayInitial,
       item_instance = Some (TemplateAnimation (800, 600)), config_duration = Some 5\<rparr>,
      \<lparr>slug = ''broken'', view_display = DisplayInitial,
       item_instance = None, config_duration = Some 3\<rparr>]"

definition example_frames :: frames where
  "example_frames = \<lparr>rafSeq = 1, rafPending = [1]\<rparr>"

text \<open>
  Three entries whose modules differ: a \<open>TemplateAnimation\<close>, a first-version
  \<open>TemplateAnimation\<close> (its constructor sets the fields and does not call \<open>resize\<close>), and an
  entry without an instance.
\<close>

definition TemplateAnimation_v1 :: "real \<times> real \<Rightarrow> module_instance" where
  "TemplateAnimation_v1 canvasRect =
     \<lparr>self = \<lparr>frameId = None, initialized = False, width = 0, height = 0,
               rect = canvasRect, LOW = Num 0, MID = Num 0, HIGH = Num 0\<rparr>,
      start = Some TemplateAnimation_v1_start,
      stop = Some TemplateAnimation_stop,
      updateFrequencies = Some TemplateAnimation_updateFrequencies\<rparr>"

definition mixed_entries :: "item list" where
  "mixed_entries =
     [\<lparr>slug = ''template'', view_display = DisplayInitial,
       item_instance = Some (TemplateAnimation (800, 600)), config_duration = Some 5\<rparr>,
      \<lparr>slug = ''first-template'', view_display = DisplayInitial,
       item_instance = Some (TemplateAnimation_v1 (800, 600)), config_duration = Some 4\<rparr>,
      \<lparr>slug = ''broken'', view_display = DisplayInitial,
       item_instance = None, config_duration = Some 3\<rparr>]"

text \<open>
  Modules that break the contract: one whose \<open>stop\<close> and \<open>updateFrequencies\<close> throw, and
  one whose \<open>start\<close> throws. A tick whose random numbers are all one half and whose
  analyser hears silence, and a manager that has gone live on its first request.
\<close>

definition throwing :: "string \<Rightarrow> lifecycle_method" where
  "throwing msg = (\<lambda>(a, f). Thrown (ModuleError msg) (a, f))"

definition throwing_update :: update_method where
  "throwing_update low mid high a = Thrown (ModuleError ''updateFrequencies'') a"

definition faulty_entries :: "item list" where
  "faulty_entries =
     [\<lparr>slug = ''faulty'', view_display = DisplayInitial,
       item_instance = Some ((TemplateAnimation (800, 600))
                               \<lparr>stop := Some (throwing ''stop''),
                                updateFrequencies := Some throwing_update\<rparr>),
       config_duration = None\<rparr>,
      \<lparr>slug = ''template'', view_display = DisplayInitial,
       item_instance = Some (TemplateAnimation (800, 600)), config_duration = Some 5\<rparr>]"

definition unstartable_entries :: "item list" where
  "unstartable_entries =
     [\<lparr>slug = ''unstartable'', view_display = DisplayInitial,
       item_instance = Some ((TemplateAnimation (800, 600))\<lparr>start := Some (throwing ''start'')\<rparr>),
       config_duration = None\<rparr>]"

definition example_tick :: tick_input where
  "example_tick = \<lparr>math_random = (1 / 2, 1 / 2, 1 / 2), frequencyData = replicate 1024 0\<rparr>"

definition live_manager :: "audio_manager \<times> media" where
  "live_manager = snd (enableLiveInput Granted (new_AudioManager, no_capture Running))"


section \<open>Properties of numbers\<close>

lemma round_half_even_of_int [simp]: "round_half_even (real_of_int n) = n"
  by (simp add: round_half_even_def)

lemma round_half_even_ge: "real_of_int n \<le> r \<Longrightarrow> n \<le> round_half_even r"
proof -
  assume "real_of_int n \<le> r"
  then have "n \<le> \<lfloor>r\<rfloor>" by (simp add: le_floor_iff)
  then show ?thesis by (simp add: round_half_even_def)
qed

lemma round_half_even_le: "r \<le> real_of_int n \<Longrightarrow> round_half_even r \<le> n"
proof -
  assume a: "r \<le> real_of_int n"
  have f: "\<lfloor>r\<rfloor> \<le> n" using a by (simp add: floor_le_iff)
  show ?thesis
  proof (cases "r = real_of_int \<lfloor>r\<rfloor>")
    case True
    then show ?thesis using f by (simp add: round_half_even_def)
  next
    case False
    then have "real_of_int \<lfloor>r\<rfloor> < r" by linarith
    then have "real_of_int \<lfloor>r\<rfloor> < real_of_int n" using a by linarith
    then have "\<lfloor>r\<rfloor> + 1 \<le> n" by simp
    then show ?thesis using f by (simp add: round_half_even_def)
  qed
qed

lemma pow2_mult: "(2::real) powr a * 2 powr b = 2 powr (a + b)"
  by (simp only: powr_add)

lemma exponent_log:
  "exponent x = (if \<bar>x\<bar> < 2 powr (- 1022) then - 1022 else \<lfloor>log 2 \<bar>x\<bar>\<rfloor>)"
proof (cases "\<bar>x\<bar> < 2 powr (- 1022)")
  case True
  then have "\<bar>x\<bar> < 1 / 2 ^ 1022" by (simp add: powr_neg_numeral)
  then have "\<bar>x\<bar> * 2 ^ 1074 < 2 ^ 52" by (simp add: field_simps)
  then have "\<bar>x\<bar> * 2 ^ 1074 < real_of_int (2 ^ 52)" by simp
  then have "\<lfloor>\<bar>x\<bar> * 2 ^ 1074\<rfloor> < 2 ^ 52" by (simp only: floor_less_iff)
  then have "bitlen \<lfloor>\<bar>x\<bar> * 2 ^ 1074\<rfloor> \<le> 52"
    using bitlen_le_iff_power [of "\<lfloor>\<bar>x\<bar> * 2 ^ 1074\<rfloor>" 52] by simp
  then show ?thesis using True by (simp add: exponent_def)
next
  case False
  define k where "k = \<lfloor>log 2 \<bar>x\<bar>\<rfloor>"
  define n where "n = \<lfloor>\<bar>x\<bar> * 2 ^ 1074\<rfloor>"
  have big: "2 powr (- 1022) \<le> \<bar>x\<bar>" using False by simp
  then have p: "0 < \<bar>x\<bar>" by (smt (verit) powr_gt_zero)
  have b: "2 powr real_of_int k \<le> \<bar>x\<bar> \<and> \<bar>x\<bar> < 2 powr (real_of_int k + 1)"
    using p floor_log_eq_powr_iff [of "\<bar>x\<bar>" 2 k] by (simp add: k_def)
  have "log 2 (2 powr (- 1022)) \<le> log 2 \<bar>x\<bar>"
    using big p by (subst log_le_cancel_iff) auto
  then have "- 1022 \<le> log 2 \<bar>x\<bar>" by simp
  then have k: "- 1022 \<le> k" by (simp add: k_def le_floor_iff)
  define m where "m = nat (k + 1074)"
  have km: "real_of_int k = real m - 1074" using k by (simp add: m_def)
  have lo: "(2::real) ^ m = 2 powr real_of_int k * 2 ^ 1074"
    using pow2_mult [of "real_of_int k" 1074] by (simp add: km powr_realpow)
  have hi: "(2::real) ^ (m + 1) = 2 powr (real_of_int k + 1) * 2 ^ 1074"
    using pow2_mult [of "real_of_int k + 1" 1074] powr_realpow [of 2 "m + 1"] by (simp add: km)
  have "real_of_int (2 ^ m) \<le> \<bar>x\<bar> * 2 ^ 1074" using b lo by simp
  then have n1: "2 ^ m \<le> n" by (simp only: n_def le_floor_iff)
  have "\<bar>x\<bar> * 2 ^ 1074 < real_of_int (2 ^ (m + 1))" using b hi by simp
  then have n2: "n < 2 ^ (m + 1)" by (simp only: n_def floor_less_iff)
  have "bitlen n \<le> int m + 1"
    using bitlen_le_iff_power [of n "int m + 1"] n2 by (simp add: nat_add_distrib)
  moreover have "int m + 1 \<le> bitlen n"
    using bitlen_ge_iff_power [of "int m + 1" n] n1 by (simp add: nat_add_distrib)
  ultimately have "bitlen n = int m + 1" by simp
  then have "bitlen n - 1075 = k" using k by (simp add: m_def)
  moreover have "exponent x = max (- 1022) (bitlen n - 1075)"
    by (simp only: exponent_def n_def)
  ultimately have "exponent x = k" using k by simp
  then show ?thesis using False by (simp add: k_def)
qed

lemma ulp_powr: "ulp x = 2 powr (real_of_int (exponent x) - 52)"
  using powr_real_of_int' [of 2 "exponent x - 52"] by (simp add: ulp_def)

lemma ulp_pos: "0 < ulp x"
  by (simp add: ulp_powr)

lemma exponent_eqI:
  assumes "2 powr real_of_int k \<le> \<bar>x\<bar>" "\<bar>x\<bar> < 2 powr (real_of_int k + 1)" "- 1022 \<le> k"
  shows "exponent x = k"
proof -
  have "2 powr (- 1022) \<le> (2::real) powr real_of_int k"
    using assms(3) by (intro powr_mono) auto
  then have a: "\<not> \<bar>x\<bar> < 2 powr (- 1022)" using assms(1) by linarith
  have "0 < \<bar>x\<bar>" using assms(1) by (smt (verit) powr_gt_zero)
  then have "\<lfloor>log 2 \<bar>x\<bar>\<rfloor> = k"
    using assms by (simp add: floor_log_eq_powr_iff)
  with a show ?thesis by (simp add: exponent_log)
qed

lemma exponent_small: "\<bar>x\<bar> < 2 powr (- 1022) \<Longrightarrow> exponent x = - 1022"
  by (simp add: exponent_log)

lemma exponent_bounds:
  assumes "2 powr (- 1022) \<le> \<bar>x\<bar>"
  shows "2 powr real_of_int (exponent x) \<le> \<bar>x\<bar>" "\<bar>x\<bar> < 2 powr (real_of_int (exponent x) + 1)"
    "- 1022 \<le> exponent x"
proof -
  have p: "0 < \<bar>x\<bar>" using assms by (smt (verit) powr_gt_zero)
  have e: "exponent x = \<lfloor>log 2 \<bar>x\<bar>\<rfloor>" using assms by (simp add: exponent_log)
  have "\<lfloor>log 2 \<bar>x\<bar>\<rfloor> = \<lfloor>log 2 \<bar>x\<bar>\<rfloor>" ..
  then have b: "2 powr real_of_int \<lfloor>log 2 \<bar>x\<bar>\<rfloor> \<le> \<bar>x\<bar> \<and> \<bar>x\<bar> < 2 powr (real_of_int \<lfloor>log 2 \<bar>x\<bar>\<rfloor> + 1)"
    using p floor_log_eq_powr_iff [of "\<bar>x\<bar>" 2 "\<lfloor>log 2 \<bar>x\<bar>\<rfloor>"] by simp
  show "2 powr real_of_int (exponent x) \<le> \<bar>x\<bar>" using b e by simp
  show "\<bar>x\<bar> < 2 powr (real_of_int (exponent x) + 1)" using b e by simp
  have "log 2 (2 powr (- 1022)) \<le> log 2 \<bar>x\<bar>"
    using assms p by (subst log_le_cancel_iff) auto
  then have "- 1022 \<le> log 2 \<bar>x\<bar>" by simp
  then show "- 1022 \<le> exponent x" using e by (simp add: le_floor_iff)
qed

lemma nearest_double_0 [simp]: "nearest_double 0 = 0"
  using round_half_even_of_int [of 0] by (simp add: nearest_double_def)

lemma nearest_double_nonneg: "0 \<le> x \<Longrightarrow> 0 \<le> nearest_double x"
proof -
  assume "0 \<le> x"
  then have "real_of_int 0 \<le> x / ulp x" using ulp_pos [of x] by simp
  then have "0 \<le> round_half_even (x / ulp x)" by (rule round_half_even_ge)
  then show ?thesis using ulp_pos [of x] by (simp add: nearest_double_def)
qed


lemma ulp_eqI:
  assumes "2 powr real_of_int k \<le> \<bar>x\<bar>" "\<bar>x\<bar> < 2 powr (real_of_int k + 1)" "- 1022 \<le> k"
  shows "ulp x = 2 powr (real_of_int k - 52)"
  using exponent_eqI [OF assms] by (simp add: ulp_powr)

lemma nearest_double_eqI:
  assumes "2 powr real_of_int k \<le> \<bar>x\<bar>" "\<bar>x\<bar> < 2 powr (real_of_int k + 1)" "- 1022 \<le> k"
  shows "nearest_double x =
           real_of_int (round_half_even (x / 2 powr (real_of_int k - 52))) * 2 powr (real_of_int k - 52)"
  using ulp_eqI [OF assms] by (simp add: nearest_double_def)

lemma pow2_cancel: "k \<le> 52 \<Longrightarrow> 2 powr (real_of_int k - 52) * 2 ^ nat (52 - k) = (1::real)"
proof -
  assume k: "k \<le> 52"
  have "(2::real) ^ nat (52 - k) = 2 powr real (nat (52 - k))"
    by (simp add: powr_realpow)
  also have "real (nat (52 - k)) = 52 - real_of_int k" using k by simp
  finally have "2 powr (real_of_int k - 52) * 2 ^ nat (52 - k)
      = 2 powr (real_of_int k - 52) * 2 powr (52 - real_of_int k)" by simp
  also have "\<dots> = 2 powr ((real_of_int k - 52) + (52 - real_of_int k))"
    by (simp only: powr_add)
  finally show ?thesis by simp
qed

lemma nearest_double_int:
  assumes "\<bar>n\<bar> \<le> 2 ^ 53"
  shows "nearest_double (real_of_int n) = real_of_int n"
proof (cases "n = 0")
  case True
  then show ?thesis by simp
next
  case False
  define x where "x = real_of_int n"
  define k where "k = exponent x"
  have one: "1 \<le> \<bar>x\<bar>" using False by (simp add: x_def)
  have "(2::real) powr (- 1022) \<le> 2 powr 0" by (intro powr_mono) auto
  then have big: "2 powr (- 1022) \<le> \<bar>x\<bar>" using one by simp
  note b = exponent_bounds [OF big, folded k_def]
  have top: "\<bar>x\<bar> \<le> 2 ^ 53"
  proof -
    have "real_of_int \<bar>n\<bar> \<le> real_of_int (2 ^ 53)" using assms by (simp only: of_int_le_iff)
    then show ?thesis by (simp add: x_def)
  qed
  have "2 powr real_of_int k \<le> (2::real) ^ 53" using b(1) top by simp
  then have "real_of_int k \<le> 53" using powr_le_cancel_iff [of 2 "real_of_int k" 53] by simp
  then have k53: "k \<le> 53" by simp
  have u: "ulp x = 2 powr (real_of_int k - 52)" by (simp add: ulp_powr k_def)
  show ?thesis
  proof (cases "k \<le> 52")
    case True
    have "x / ulp x = x * 2 ^ nat (52 - k)"
      using pow2_cancel [OF True] by (simp add: u field_simps)
    also have "\<dots> = real_of_int (n * 2 ^ nat (52 - k))" by (simp add: x_def)
    finally have "round_half_even (x / ulp x) = n * 2 ^ nat (52 - k)"
      by (simp only: round_half_even_of_int)
    then have "nearest_double x = x * (2 ^ nat (52 - k) * ulp x)"
      by (simp add: nearest_double_def x_def)
    also have "2 ^ nat (52 - k) * ulp x = 1" using pow2_cancel [OF True] by (simp add: u mult.commute)
    finally show ?thesis by (simp add: x_def)
  next
    case False
    then have k: "k = 53" using k53 by simp
    have "2 ^ 53 \<le> \<bar>x\<bar>" using b(1) by (simp add: k)
    then have ax: "\<bar>x\<bar> = 2 ^ 53" using top by simp
    have u2: "ulp x = 2" by (simp add: u k)
    have "x = 2 ^ 53 \<or> x = - (2 ^ 53)" using ax by (simp add: abs_if split: if_splits)
    then show ?thesis
    proof
      assume e: "x = 2 ^ 53"
      have "x / 2 = real_of_int (2 ^ 52)" using e by simp
      then have r: "round_half_even (x / 2) = 2 ^ 52"
        by (simp only: round_half_even_of_int)
      have "nearest_double x = real_of_int (round_half_even (x / ulp x)) * ulp x"
        by (simp only: nearest_double_def)
      also have "\<dots> = real_of_int (2 ^ 52) * 2" by (simp only: u2 r)
      also have "\<dots> = x" using e by simp
      finally show ?thesis by (simp only: x_def)
    next
      assume e: "x = - (2 ^ 53)"
      have "x / 2 = real_of_int (- (2 ^ 52))" using e by simp
      then have r: "round_half_even (x / 2) = - (2 ^ 52)"
        by (simp only: round_half_even_of_int)
      have "nearest_double x = real_of_int (round_half_even (x / ulp x)) * ulp x"
        by (simp only: nearest_double_def)
      also have "\<dots> = real_of_int (- (2 ^ 52)) * 2" by (simp only: u2 r)
      also have "\<dots> = x" using e by simp
      finally show ?thesis by (simp only: x_def)
    qed
  qed
qed

lemma nearest_double_le_next:
  assumes "0 \<le> x"
  shows "nearest_double x \<le> 2 powr (real_of_int (exponent x) + 1)"
proof -
  have "x / ulp x \<le> real_of_int (2 ^ 53)"
  proof (cases "\<bar>x\<bar> < 2 powr (- 1022)")
    case True
    then have u: "ulp x = 2 powr (- 1074)" by (simp add: ulp_powr exponent_log)
    have "x < 2 powr (- 1022)" using True assms by simp
    also have "(2::real) powr (- 1022) = 2 ^ 52 * 2 powr (- 1074)"
      using pow2_mult [of 52 "- 1074"] by simp
    finally have "x / 2 powr (- 1074) < 2 ^ 52"
      by (simp add: field_simps)
    then show ?thesis by (simp add: u)
  next
    case False
    then have big: "2 powr (- 1022) \<le> \<bar>x\<bar>" by simp
    note b = exponent_bounds [OF big]
    have "x < 2 powr (real_of_int (exponent x) + 1)" using b(2) assms by simp
    also have "\<dots> = 2 ^ 53 * ulp x"
      using pow2_mult [of 53 "real_of_int (exponent x) - 52"] by (simp add: ulp_powr add.commute)
    finally have "x / ulp x < 2 ^ 53" using ulp_pos [of x] by (simp add: field_simps)
    then show ?thesis by simp
  qed
  then have "round_half_even (x / ulp x) \<le> 2 ^ 53" by (rule round_half_even_le)
  then have "real_of_int (round_half_even (x / ulp x)) \<le> real_of_int (2 ^ 53)"
    by (simp only: of_int_le_iff)
  then have "nearest_double x \<le> real_of_int (2 ^ 53) * ulp x"
    using ulp_pos [of x] by (simp add: nearest_double_def)
  also have "real_of_int (2 ^ 53) * ulp x = 2 powr (real_of_int (exponent x) + 1)"
    using pow2_mult [of 53 "real_of_int (exponent x) - 52"] by (simp add: ulp_powr add.commute)
  finally show ?thesis .
qed

lemma nearest_double_pow2:
  assumes "- 1022 \<le> k"
  shows "nearest_double (2 powr real_of_int k) = 2 powr real_of_int k"
proof -
  have p: "(0::real) < 2 powr real_of_int k" by simp
  have a: "2 powr real_of_int k \<le> \<bar>2 powr real_of_int k\<bar>" by simp
  have b: "\<bar>2 powr real_of_int k\<bar> < 2 powr (real_of_int k + 1)" by simp
  have split: "(2::real) powr real_of_int k = 2 ^ 52 * 2 powr (real_of_int k - 52)"
    using pow2_mult [of 52 "real_of_int k - 52"] by simp
  then have "2 powr real_of_int k / 2 powr (real_of_int k - 52) = real_of_int (2 ^ 52)"
    by (simp add: field_simps)
  then have "round_half_even (2 powr real_of_int k / 2 powr (real_of_int k - 52)) = 2 ^ 52"
    by (simp only: round_half_even_of_int)
  then have "nearest_double (2 powr real_of_int k) = 2 ^ 52 * 2 powr (real_of_int k - 52)"
    by (simp add: nearest_double_eqI [OF a b assms])
  also have "\<dots> = 2 powr real_of_int k" using split by simp
  finally show ?thesis .
qed

lemma nearest_double_le_pow2:
  assumes "0 \<le> x" "x \<le> 2 powr real_of_int k" "- 1021 \<le> k"
  shows "nearest_double x \<le> 2 powr real_of_int k"
proof (cases "x = 2 powr real_of_int k")
  case True
  then show ?thesis using nearest_double_pow2 [of k] assms(3) by simp
next
  case False
  then have lt: "x < 2 powr real_of_int k" using assms(2) by simp
  have "exponent x + 1 \<le> k"
  proof (cases "\<bar>x\<bar> < 2 powr (- 1022)")
    case True
    then have "exponent x = - 1022" by (simp add: exponent_log)
    then show ?thesis using assms(3) by simp
  next
    case False
    then have big: "2 powr (- 1022) \<le> \<bar>x\<bar>" by simp
    note b = exponent_bounds [OF big]
    have "\<bar>x\<bar> = x" using assms(1) by simp
    then have "2 powr real_of_int (exponent x) < 2 powr real_of_int k"
      using b(1) lt by linarith
    then have "real_of_int (exponent x) < real_of_int k"
      using powr_less_cancel_iff [of 2 "real_of_int (exponent x)" "real_of_int k"] by simp
    then have "exponent x < k" by simp
    then show ?thesis by simp
  qed
  then have "2 powr (real_of_int (exponent x) + 1) \<le> (2::real) powr real_of_int k"
    by (intro powr_mono) auto
  with nearest_double_le_next [OF assms(1)] show ?thesis by linarith
qed


lemma nearest_double_saturated:
  assumes "2 ^ 61 < y" "y \<le> 2 ^ 61 + 255"
  shows "nearest_double y = 2 ^ 61"
proof -
  have a: "2 powr real_of_int 61 \<le> \<bar>y\<bar>" using assms by simp
  have b: "\<bar>y\<bar> < 2 powr (real_of_int 61 + 1)" using assms by simp
  have fl: "\<lfloor>y / 512\<rfloor> = 2 ^ 52" using assms by (simp add: floor_eq_iff)
  have r: "round_half_even (y / 512) = 2 ^ 52"
    using assms by (simp add: round_half_even_def fl)
  show ?thesis
    using nearest_double_eqI [OF a b] by (simp add: r)
qed

lemma nearest_double_counter:
  "nearest_double (2 ^ 53 + 1) = 2 ^ 53"
proof -
  have a: "2 powr real_of_int 53 \<le> \<bar>2 ^ 53 + 1 :: real\<bar>" by simp
  have b: "\<bar>2 ^ 53 + 1 :: real\<bar> < 2 powr (real_of_int 53 + 1)" by simp
  have fl: "\<lfloor>(2 ^ 53 + 1 :: real) / 2\<rfloor> = 2 ^ 52" by (simp add: floor_eq_iff)
  have r: "round_half_even ((2 ^ 53 + 1) / 2) = 2 ^ 52"
    unfolding round_half_even_def fl by simp
  show ?thesis
    using nearest_double_eqI [OF a b] r by simp
qed

lemma nearest_double_third:
  "nearest_double (1 / 3) = 6004799503160661 / 2 ^ 54"
proof -
  have a: "2 powr real_of_int (- 2) \<le> \<bar>1 / 3 :: real\<bar>" by (simp add: powr_neg_numeral)
  have b: "\<bar>1 / 3 :: real\<bar> < 2 powr (real_of_int (- 2) + 1)" by (simp add: powr_neg_numeral)
  have u: "(2::real) powr (- 54) = 1 / 2 ^ 54" by (simp add: powr_neg_numeral)
  have fl: "\<lfloor>(2 ^ 54 :: real) / 3\<rfloor> = 6004799503160661" by (simp add: floor_eq_iff)
  have r: "round_half_even (2 ^ 54 / 3) = 6004799503160661"
    unfolding round_half_even_def fl by simp
  show ?thesis
    using nearest_double_eqI [OF a b] r by (simp add: u)
qed





section \<open>Properties of the Band Extractor\<close>

lemma MAX_VALUE_large: "2 ^ 61 \<le> MAX_VALUE"
  by (simp add: MAX_VALUE_def)

lemma to_number_not_NaN [simp]: "to_number x \<noteq> NaN"
  by (simp add: to_number_def)

lemma to_number_bounded:
  assumes "0 \<le> x" "x \<le> 2 ^ 61"
  shows "to_number x = Num (nearest_double x)" "0 \<le> nearest_double x" "nearest_double x \<le> 2 ^ 61"
proof -
  show nn: "0 \<le> nearest_double x"
    using assms(1) by (rule nearest_double_nonneg)
  have "x \<le> 2 powr real_of_int 61" using assms(2) by simp
  from nearest_double_le_pow2 [OF assms(1) this] show le: "nearest_double x \<le> 2 ^ 61"
    by simp
  from nn le MAX_VALUE_large show "to_number x = Num (nearest_double x)"
    by (simp add: to_number_def)
qed

lemma to_number_int:
  assumes "\<bar>n\<bar> \<le> 2 ^ 53"
  shows "to_number (real_of_int n) = Num (real_of_int n)"
proof -
  have "real_of_int \<bar>n\<bar> \<le> real_of_int (2 ^ 53)" using assms by (simp only: of_int_le_iff)
  then have "\<bar>real_of_int n\<bar> \<le> 2 ^ 61" by simp
  then have "real_of_int n \<le> MAX_VALUE" "- MAX_VALUE \<le> real_of_int n"
    using MAX_VALUE_large by linarith+
  then show ?thesis
    by (simp add: to_number_def nearest_double_int [OF assms])
qed

lemma to_number_nat:
  "n \<le> 2 ^ 53 \<Longrightarrow> to_number (real n) = Num (real n)"
  using to_number_int [of "int n"] by simp

lemma to_number_0 [simp]: "to_number 0 = Num 0"
  using to_number_int [of 0] by simp

text \<open>A way to compute the result of an operation whose binade is known.\<close>

lemma to_number_evalI:
  assumes "2 powr real_of_int k \<le> x" "x < 2 powr (real_of_int k + 1)" "- 1022 \<le> k" "k \<le> 60"
    and "round_half_even (x / 2 powr (real_of_int k - 52)) = m"
  shows "to_number x = Num (real_of_int m * 2 powr (real_of_int k - 52))"
proof -
  have pos: "0 < x" using assms(1) by (smt (verit) powr_gt_zero)
  have "2 powr (real_of_int k + 1) \<le> (2::real) powr 61"
    using assms(4) by (intro powr_mono) simp_all
  with assms(2) have le: "x \<le> 2 ^ 61" by simp
  have a: "2 powr real_of_int k \<le> \<bar>x\<bar>" "\<bar>x\<bar> < 2 powr (real_of_int k + 1)"
    using assms(1,2) pos by simp_all
  from to_number_bounded(1) [of x] pos le have "to_number x = Num (nearest_double x)"
    by simp
  with nearest_double_eqI [OF a assms(3)] assms(5) show ?thesis
    by simp
qed

text \<open>The two accumulators after the loop, as folds over the defined entries of the range.\<close>

lemma average_loop_eq:
  "average_loop array i e vs count =
     (foldl (\<lambda>v x. js_add v (Num (real x))) vs (defined_entries array i e),
      foldl (\<lambda>c x. js_add c (Num 1)) count (defined_entries array i e))"
proof (induction array i e vs count rule: average_loop.induct)
  case (1 array i e vs count)
  show ?case
  proof (cases "i < e")
    case False
    then have "[i..e - 1] = []" by simp
    with False show ?thesis
      by (simp add: average_loop.simps [of array i e] defined_entries_def)
  next
    case True
    then have up: "[i..e - 1] = i # [i + 1..e - 1]"
      by (simp add: upto_rec1)
    show ?thesis
    proof (cases "array i")
      case None
      with True 1 up show ?thesis
        by (simp add: average_loop.simps [of array i e] defined_entries_def)
    next
      case (Some v)
      with True 1 up show ?thesis
        by (simp add: average_loop.simps [of array i e] defined_entries_def)
    qed
  qed
qed



lemma defined_entries_bytes:
  "d \<in> set (defined_entries array s e) \<Longrightarrow> d \<le> 255"
proof -
  assume "d \<in> set (defined_entries array s e)"
  then obtain w :: "8 word" where "d = unat w"
    by (auto simp: defined_entries_def)
  moreover have "unat w < 2 ^ 8"
    using unsigned_less [of w, where 'a = nat] by simp
  ultimately show ?thesis by simp
qed

text \<open>
  \<open>count\<close> counts exactly up to \<open>2 ^ 53\<close> and stays there: \<open>2 ^ 53 + 1\<close> is not a double and
  rounds back.
\<close>

lemma count_fold:
  "n \<le> 2 ^ 53 \<Longrightarrow>
   foldl (\<lambda>c x. js_add c (Num 1)) (Num (real n)) ds = Num (real (min (n + length ds) (2 ^ 53)))"
proof (induction ds arbitrary: n)
  case Nil
  then show ?case by simp
next
  case (Cons d ds)
  show ?case
  proof (cases "n = 2 ^ 53")
    case True
    have "js_add (Num (real n)) (Num 1) = Num (real n)"
      using nearest_double_counter MAX_VALUE_large by (simp add: True to_number_def)
    with Cons.IH [OF Cons.prems] True show ?thesis by simp
  next
    case False
    with Cons.prems have n: "Suc n \<le> 2 ^ 53" by simp
    have "js_add (Num (real n)) (Num 1) = to_number (real (Suc n))"
      by (simp add: add.commute)
    also have "\<dots> = Num (real (Suc n))" using n by (rule to_number_nat)
    finally show ?thesis using Cons.IH [OF n] by simp
  qed
qed

text \<open>
  \<open>values\<close> is the exact sum as long as that stays within \<open>2 ^ 53\<close>; in any case it stays
  a finite number from 0 to \<open>2 ^ 61\<close>, where adding a byte no longer changes it.
\<close>

lemma values_fold_exact:
  "a + sum_list ds \<le> 2 ^ 53 \<Longrightarrow>
   foldl (\<lambda>v x. js_add v (Num (real x))) (Num (real a)) ds = Num (real (a + sum_list ds))"
proof (induction ds arbitrary: a)
  case Nil
  then show ?case by simp
next
  case (Cons d ds)
  from Cons.prems have a: "a + d \<le> 2 ^ 53" and rest: "(a + d) + sum_list ds \<le> 2 ^ 53"
    by simp_all
  have "js_add (Num (real a)) (Num (real d)) = to_number (real (a + d))"
    by simp
  also have "\<dots> = Num (real (a + d))" using a by (rule to_number_nat)
  finally show ?case using Cons.IH [OF rest] by (simp add: add.assoc)
qed

lemma add_byte_bounded:
  assumes "0 \<le> x" "x \<le> 2 ^ 61" "d \<le> 255"
  shows "\<exists>y. js_add (Num x) (Num (real d)) = Num y \<and> 0 \<le> y \<and> y \<le> 2 ^ 61"
proof (cases "x + real d \<le> 2 ^ 61")
  case True
  with assms(1) to_number_bounded [of "x + real d"] show ?thesis by simp
next
  case False
  then have lo: "2 ^ 61 < x + real d" by simp
  have "real d \<le> 255" using assms(3) by simp
  with assms(2) have hi: "x + real d \<le> 2 ^ 61 + 255" by simp
  from nearest_double_saturated [OF lo hi] MAX_VALUE_large show ?thesis
    by (simp add: to_number_def)
qed

lemma values_fold_bounded:
  assumes "\<forall>d \<in> set ds. d \<le> 255" "0 \<le> x" "x \<le> 2 ^ 61"
  shows "\<exists>y. foldl (\<lambda>v d. js_add v (Num (real d))) (Num x) ds = Num y \<and> 0 \<le> y \<and> y \<le> 2 ^ 61"
  using assms
proof (induction ds arbitrary: x)
  case Nil
  then show ?case by simp
next
  case (Cons d ds)
  from Cons.prems have "d \<le> 255" by simp
  from add_byte_bounded [OF Cons.prems(2,3) this]
  obtain y where y: "js_add (Num x) (Num (real d)) = Num y" "0 \<le> y" "y \<le> 2 ^ 61"
    by blast
  from Cons.prems(1) have "\<forall>d \<in> set ds. d \<le> 255" by simp
  from Cons.IH [OF this y(2,3)] y(1) show ?case by simp
qed

text \<open>What \<open>getAverageVolume\<close> returns, in terms of the two folds.\<close>

lemma getAverageVolume_folds:
  "getAverageVolume array s e =
     (if defined_entries array s e = [] then Num 0
      else js_div (foldl (\<lambda>v x. js_add v (Num (real x))) (Num 0) (defined_entries array s e))
             (Num (real (min (length (defined_entries array s e)) (2 ^ 53)))))"
proof -
  have c: "foldl (\<lambda>c x. js_add c (Num 1)) (Num 0) (defined_entries array s e)
             = Num (real (min (length (defined_entries array s e)) (2 ^ 53)))"
    using count_fold [of 0 "defined_entries array s e"] by simp
  show ?thesis
  proof (cases "defined_entries array s e = []")
    case True
    then show ?thesis
      by (simp add: getAverageVolume_def average_loop_eq)
  next
    case False
    then have "0 < length (defined_entries array s e)" by simp
    then have "real (min (length (defined_entries array s e)) (2 ^ 53)) \<noteq> 0" by simp
    then have "Num (real (min (length (defined_entries array s e)) (2 ^ 53))) \<noteq> Num 0"
      by (simp only: number.inject not_False_eq_True)
    with False show ?thesis
      by (simp only: getAverageVolume_def average_loop_eq c prod.case if_False)
  qed
qed

lemma getAverageVolume_finite:
  "\<exists>r. getAverageVolume array s e = Num r \<and> 0 \<le> r \<and> r \<le> 2 ^ 61"
proof (cases "defined_entries array s e = []")
  case True
  then show ?thesis by (simp add: getAverageVolume_folds)
next
  case False
  let ?ds = "defined_entries array s e"
  have "\<forall>d \<in> set ?ds. d \<le> 255" by (simp add: defined_entries_bytes)
  from values_fold_bounded [OF this, of 0]
  obtain y where y: "foldl (\<lambda>v d. js_add v (Num (real d))) (Num 0) ?ds = Num y" "0 \<le> y" "y \<le> 2 ^ 61"
    by auto
  define c where "c = real (min (length ?ds) (2 ^ 53))"
  have c: "1 \<le> c" using False by (cases ?ds) (simp_all add: c_def)
  have q: "0 \<le> y / c" "y / c \<le> 2 ^ 61"
  proof -
    show "0 \<le> y / c" using y(2) c by simp
    have "y / c \<le> y / 1" using y(2) c by (intro divide_left_mono) simp_all
    then show "y / c \<le> 2 ^ 61" using y(3) by simp
  qed
  have "getAverageVolume array s e = js_div (Num y) (Num c)"
    using False by (simp only: getAverageVolume_folds y(1) c_def if_False)
  also have "\<dots> = to_number (y / c)" using c by simp
  finally show ?thesis using to_number_bounded [OF q] by simp
qed

lemma short_range_exact:
  assumes "length (defined_entries array s e) \<le> 2 ^ 45"
  shows "sum_list (defined_entries array s e) \<le> 2 ^ 53"
    and "length (defined_entries array s e) \<le> 2 ^ 53"
proof -
  let ?ds = "defined_entries array s e"
  have "sum_list ?ds \<le> length ?ds * 255"
    using sum_list_mono [of ?ds "\<lambda>d. d" "\<lambda>d. 255"] defined_entries_bytes [of _ array s e]
    by (simp add: sum_list_triv)
  also have "\<dots> \<le> 2 ^ 45 * 255" using assms by simp
  finally show "sum_list ?ds \<le> 2 ^ 53" by simp
  from assms show "length ?ds \<le> 2 ^ 53" by simp
qed

lemma getAverageVolume_rounded:
  assumes "defined_entries array s e \<noteq> []" "sum_list (defined_entries array s e) \<le> 2 ^ 53"
    "length (defined_entries array s e) \<le> 2 ^ 53"
  shows "getAverageVolume array s e =
           Num (nearest_double (real (sum_list (defined_entries array s e))
                                  / real (length (defined_entries array s e))))"
proof -
  let ?ds = "defined_entries array s e"
  have bytes: "sum_list ?ds \<le> length ?ds * 255"
    using sum_list_mono [of ?ds "\<lambda>d. d" "\<lambda>d. 255"] defined_entries_bytes [of _ array s e]
    by (simp add: sum_list_triv)
  have v: "foldl (\<lambda>v x. js_add v (Num (real x))) (Num 0) ?ds = Num (real (sum_list ?ds))"
    using values_fold_exact [of 0 ?ds] assms(2) by simp
  have len: "min (length ?ds) (2 ^ 53) = length ?ds"
    using assms(3) by simp
  have pos: "0 < length ?ds" using assms(1) by simp
  have "real (sum_list ?ds) \<le> real (length ?ds * 255)"
    using bytes by (simp only: of_nat_le_iff)
  then have "real (sum_list ?ds) / real (length ?ds) \<le> 255"
    using pos by (simp add: field_simps)
  then have q: "0 \<le> real (sum_list ?ds) / real (length ?ds)"
    "real (sum_list ?ds) / real (length ?ds) \<le> 2 ^ 61"
    by simp_all
  have "getAverageVolume array s e
          = js_div (Num (real (sum_list ?ds))) (Num (real (length ?ds)))"
    using assms(1) by (simp only: getAverageVolume_folds v len if_False)
  also have "\<dots> = to_number (real (sum_list ?ds) / real (length ?ds))"
    using pos by simp
  finally show ?thesis using to_number_bounded(1) [OF q] by simp
qed





text \<open>
  For a \<open>Uint8Array\<close> of up to \<open>2 ^ 45\<close> bytes (the one \<open>startLoop\<close> passes has 1024) the
  sum and the count are always exact, whatever the range.
\<close>

lemma defined_entries_Uint8Array:
  "length (defined_entries (Uint8Array_at bytes) s e) \<le> length bytes"
proof -
  let ?P = "\<lambda>i. 0 \<le> i \<and> i < int (length bytes)"
  have "length (defined_entries (Uint8Array_at bytes) s e) = length (filter ?P [s..e - 1])"
    by (simp add: defined_entries_def List.map_filter_def Uint8Array_at_def js_index_def
        cong: filter_cong)
  also have "\<dots> = card (set (filter ?P [s..e - 1]))"
    by (rule distinct_card [symmetric]) simp
  also have "\<dots> \<le> card {0..<int (length bytes)}"
    by (intro card_mono) auto
  finally show ?thesis by simp
qed

lemma getAverageVolume_Uint8Array:
  assumes "length bytes \<le> 2 ^ 45"
  shows "getAverageVolume (Uint8Array_at bytes) s e =
           (if defined_entries (Uint8Array_at bytes) s e = [] then Num 0
            else Num (nearest_double (mean_of_defined (Uint8Array_at bytes) s e)))"
proof (cases "defined_entries (Uint8Array_at bytes) s e = []")
  case True
  then show ?thesis by (simp add: getAverageVolume_folds)
next
  case False
  have "length (defined_entries (Uint8Array_at bytes) s e) \<le> 2 ^ 45"
    using defined_entries_Uint8Array [of bytes s e] assms by linarith
  from short_range_exact [OF this] False show ?thesis
    by (simp add: getAverageVolume_rounded mean_of_defined_def)
qed


section \<open>Properties of the module lifecycle\<close>

lemma TemplateAnimation_start_fresh:
  "\<not> truthy (frameId a) \<Longrightarrow>
   TemplateAnimation_start (a, f) =
     Returned ((resize a)\<lparr>frameId := Some (Suc (rafSeq f))\<rparr>,
               f\<lparr>rafSeq := Suc (rafSeq f), rafPending := rafPending f @ [Suc (rafSeq f)]\<rparr>)"
  by (simp add: TemplateAnimation_start_def requestAnimationFrame_def Let_def)

lemma TemplateAnimation_start_running:
  "truthy (frameId a) \<Longrightarrow> TemplateAnimation_start (a, f) = Returned (a, f)"
  by (simp add: TemplateAnimation_start_def)

lemma TemplateAnimation_stop_running:
  "frameId a = Some h \<Longrightarrow> h \<noteq> 0 \<Longrightarrow>
   TemplateAnimation_stop (a, f) = Returned (a\<lparr>frameId := None\<rparr>, cancelAnimationFrame h f)"
  by (simp add: TemplateAnimation_stop_def truthy_def)

lemma TemplateAnimation_stop_stopped:
  "\<not> truthy (frameId a) \<Longrightarrow> TemplateAnimation_stop (a, f) = Returned (a, f)"
  by (simp add: TemplateAnimation_stop_def)

lemma frameId_resize [simp]: "frameId (resize a) = frameId a"
  by (simp add: resize_def Let_def)

text \<open>What the contract says about one call of \<open>start\<close> and about one call of \<open>stop\<close>.\<close>

lemma contract_start:
  assumes "lifecycle_contract start_m stop_m"
  obtains a' where
    "start_m (a, f) = Returned (a', if truthy (frameId a) then f else snd (requestAnimationFrame f))"
    "frameId a' = (if truthy (frameId a) then frameId a else Some (fst (requestAnimationFrame f)))"
  using assms unfolding lifecycle_contract_def by blast

lemma contract_stop:
  assumes "lifecycle_contract start_m stop_m"
  obtains a' where
    "stop_m (a, f) =
       Returned (a', case frameId a of
                       None \<Rightarrow> f
                     | Some h \<Rightarrow> if h = 0 then f else cancelAnimationFrame h f)"
    "frameId a' = (if truthy (frameId a) then None else frameId a)"
  using assms unfolding lifecycle_contract_def by blast

text \<open>The modules of the repository meet the contract.\<close>

lemma stop_meets_contract:
  "\<exists>a'. TemplateAnimation_stop (a, f) =
           Returned (a', case frameId a of
                           None \<Rightarrow> f
                         | Some h \<Rightarrow> if h = 0 then f else cancelAnimationFrame h f)
        \<and> frameId a' = (if truthy (frameId a) then None else frameId a)"
  by (cases "frameId a") (simp_all add: TemplateAnimation_stop_def truthy_def)

lemma TemplateAnimation_conforms:
  "lifecycle_contract TemplateAnimation_start TemplateAnimation_stop"
  unfolding lifecycle_contract_def
proof (intro allI conjI)
  fix a f
  show "\<exists>a'. TemplateAnimation_start (a, f) =
           Returned (a', if truthy (frameId a) then f else snd (requestAnimationFrame f))
        \<and> frameId a' = (if truthy (frameId a) then frameId a
                         else Some (fst (requestAnimationFrame f)))"
    by (cases "truthy (frameId a)")
      (simp_all add: TemplateAnimation_start_running TemplateAnimation_start_fresh
        requestAnimationFrame_def)
  show "\<exists>a'. TemplateAnimation_stop (a, f) =
           Returned (a', case frameId a of
                           None \<Rightarrow> f
                         | Some h \<Rightarrow> if h = 0 then f else cancelAnimationFrame h f)
        \<and> frameId a' = (if truthy (frameId a) then None else frameId a)"
    by (rule stop_meets_contract)
qed

lemma TemplateAnimation_v1_conforms:
  "lifecycle_contract TemplateAnimation_v1_start TemplateAnimation_stop"
  unfolding lifecycle_contract_def
proof (intro allI conjI)
  fix a f
  show "\<exists>a'. TemplateAnimation_v1_start (a, f) =
           Returned (a', if truthy (frameId a) then f else snd (requestAnimationFrame f))
        \<and> frameId a' = (if truthy (frameId a) then frameId a
                         else Some (fst (requestAnimationFrame f)))"
    by (simp add: TemplateAnimation_v1_start_def TemplateAnimation_v1_drawFrame_def
        requestAnimationFrame_def)
  show "\<exists>a'. TemplateAnimation_stop (a, f) =
           Returned (a', case frameId a of
                           None \<Rightarrow> f
                         | Some h \<Rightarrow> if h = 0 then f else cancelAnimationFrame h f)
        \<and> frameId a' = (if truthy (frameId a) then None else frameId a)"
    by (rule stop_meets_contract)
qed

lemma ExampleAnimation_conforms:
  "lifecycle_contract ExampleAnimation_start ExampleAnimation_stop"
  unfolding lifecycle_contract_def
proof (intro allI conjI)
  fix a f
  show "\<exists>a'. ExampleAnimation_start (a, f) =
           Returned (a', if truthy (frameId a) then f else snd (requestAnimationFrame f))
        \<and> frameId a' = (if truthy (frameId a) then frameId a
                         else Some (fst (requestAnimationFrame f)))"
    by (simp add: ExampleAnimation_start_def requestAnimationFrame_def)
  show "\<exists>a'. ExampleAnimation_stop (a, f) =
           Returned (a', case frameId a of
                           None \<Rightarrow> f
                         | Some h \<Rightarrow> if h = 0 then f else cancelAnimationFrame h f)
        \<and> frameId a' = (if truthy (frameId a) then None else frameId a)"
    by (cases "frameId a") (simp_all add: ExampleAnimation_stop_def truthy_def)
qed

lemma renderer_conforms:
  assumes "\<And>a. frameId (prepare a) = frameId a" and "\<And>a. webglSupported (prepare a)"
    and "\<And>a. frameId (release a) = frameId a"
  shows "lifecycle_contract (renderer_start prepare webglSupported) (renderer_stop release)"
  unfolding lifecycle_contract_def
proof (intro allI conjI)
  fix a f
  show "\<exists>a'. renderer_start prepare webglSupported (a, f) =
           Returned (a', if truthy (frameId a) then f else snd (requestAnimationFrame f))
        \<and> frameId a' = (if truthy (frameId a) then frameId a
                         else Some (fst (requestAnimationFrame f)))"
    using assms(1,2) by (simp add: renderer_start_def requestAnimationFrame_def Let_def)
  show "\<exists>a'. renderer_stop release (a, f) =
           Returned (a', case frameId a of
                           None \<Rightarrow> f
                         | Some h \<Rightarrow> if h = 0 then f else cancelAnimationFrame h f)
        \<and> frameId a' = (if truthy (frameId a) then None else frameId a)"
    using assms(3) by (cases "frameId a") (simp_all add: renderer_stop_def truthy_def)
qed

text \<open>
  A WebGL renderer on a machine without WebGL never registers its draw callback, so it
  never runs and does not meet the contract.
\<close>

lemma renderer_without_WebGL:
  assumes "\<not> webglSupported (prepare a)"
  shows "renderer_start prepare webglSupported (a, f) = Returned (prepare a, f)"
    and "frameId a = None \<Longrightarrow>
         \<not> lifecycle_contract (renderer_start prepare webglSupported) stop_m"
proof -
  show r: "renderer_start prepare webglSupported (a, f) = Returned (prepare a, f)"
    using assms by (simp add: renderer_start_def Let_def)
  assume n: "frameId a = None"
  show "\<not> lifecycle_contract (renderer_start prepare webglSupported) stop_m"
  proof
    assume "lifecycle_contract (renderer_start prepare webglSupported) stop_m"
    from contract_start [OF this, of a f] obtain a' where
      "renderer_start prepare webglSupported (a, f)
         = Returned (a', if truthy (frameId a) then f else snd (requestAnimationFrame f))"
      by blast
    with r n have "f = snd (requestAnimationFrame f)"
      by (simp add: truthy_def)
    then have "rafSeq f = rafSeq (snd (requestAnimationFrame f))" by simp
    then show False by (simp add: requestAnimationFrame_def)
  qed
qed

text \<open>Two calls in a row on a module that meets the contract.\<close>

lemma start_twice:
  assumes "lifecycle_contract start_m stop_m"
  shows "\<exists>a'. and_then (start_m (a, f)) start_m =
            Returned (a', if truthy (frameId a) then f else snd (requestAnimationFrame f))
          \<and> frameId a' = (if truthy (frameId a) then frameId a else Some (Suc (rafSeq f)))"
proof -
  let ?f1 = "if truthy (frameId a) then f else snd (requestAnimationFrame f)"
  from contract_start [OF assms, of a f] obtain a1 where
    s1: "start_m (a, f) = Returned (a1, ?f1)"
    and h1: "frameId a1 = (if truthy (frameId a) then frameId a
                            else Some (fst (requestAnimationFrame f)))"
    by blast
  from h1 have t1: "truthy (frameId a1)"
    by (simp add: truthy_def requestAnimationFrame_def split: if_splits)
  from contract_start [OF assms, of a1 ?f1] t1 obtain a2 where
    s2: "start_m (a1, ?f1) = Returned (a2, ?f1)" and h2: "frameId a2 = frameId a1"
    by auto
  from s1 s2 have "and_then (start_m (a, f)) start_m = Returned (a2, ?f1)"
    by (simp add: and_then_def)
  moreover from h1 h2 have
    "frameId a2 = (if truthy (frameId a) then frameId a else Some (Suc (rafSeq f)))"
    by (simp add: requestAnimationFrame_def)
  ultimately show ?thesis by blast
qed

lemma stop_twice:
  assumes "lifecycle_contract start_m stop_m"
  shows "\<exists>a1 a2 f1. stop_m (a, f) = Returned (a1, f1)
           \<and> and_then (stop_m (a, f)) stop_m = Returned (a2, f1)
           \<and> f1 = (case frameId a of
                      None \<Rightarrow> f
                    | Some h \<Rightarrow> if h = 0 then f else cancelAnimationFrame h f)
           \<and> frameId a1 = (if truthy (frameId a) then None else frameId a)
           \<and> frameId a2 = frameId a1"
proof -
  let ?f1 = "case frameId a of
               None \<Rightarrow> f
             | Some h \<Rightarrow> if h = 0 then f else cancelAnimationFrame h f"
  from contract_stop [OF assms, of a f] obtain a1 where
    s1: "stop_m (a, f) = Returned (a1, ?f1)"
    and h1: "frameId a1 = (if truthy (frameId a) then None else frameId a)"
    by blast
  from h1 have t1: "\<not> truthy (frameId a1)"
    by (simp add: truthy_def split: if_splits)
  then have same: "(case frameId a1 of
                      None \<Rightarrow> ?f1
                    | Some h \<Rightarrow> if h = 0 then ?f1 else cancelAnimationFrame h ?f1) = ?f1"
    by (simp add: truthy_def split: option.splits)
  from contract_stop [OF assms, of a1 ?f1] obtain a2 where
    "stop_m (a1, ?f1) =
       Returned (a2, case frameId a1 of
                       None \<Rightarrow> ?f1
                     | Some h \<Rightarrow> if h = 0 then ?f1 else cancelAnimationFrame h ?f1)"
    and h2: "frameId a2 = (if truthy (frameId a1) then None else frameId a1)"
    by blast
  with same have s2: "stop_m (a1, ?f1) = Returned (a2, ?f1)"
    by (simp only:)
  from s1 s2 have "and_then (stop_m (a, f)) stop_m = Returned (a2, ?f1)"
    by (simp add: and_then_def)
  moreover from h2 t1 have "frameId a2 = frameId a1" by simp
  ultimately show ?thesis using s1 h1 by blast
qed

lemma start_then_stop:
  assumes "lifecycle_contract start_m stop_m" and "\<not> truthy (frameId a)"
    and "\<forall>h \<in> set (rafPending f). h \<le> rafSeq f"
  shows "\<exists>a'. and_then (start_m (a, f)) stop_m = Returned (a', f\<lparr>rafSeq := Suc (rafSeq f)\<rparr>)
          \<and> frameId a' = None"
proof -
  from contract_start [OF assms(1), of a f] assms(2) obtain a1 where
    s1: "start_m (a, f) = Returned (a1, snd (requestAnimationFrame f))"
    and h1: "frameId a1 = Some (Suc (rafSeq f))"
    by (auto simp: requestAnimationFrame_def)
  from contract_stop [OF assms(1), of a1 "snd (requestAnimationFrame f)"] h1 obtain a2 where
    s2: "stop_m (a1, snd (requestAnimationFrame f))
           = Returned (a2, cancelAnimationFrame (Suc (rafSeq f)) (snd (requestAnimationFrame f)))"
    and h2: "frameId a2 = None"
    by (auto simp: truthy_def)
  have "Suc (rafSeq f) \<notin> set (rafPending f)"
    using assms(3) by auto
  then have "cancelAnimationFrame (Suc (rafSeq f)) (snd (requestAnimationFrame f))
               = f\<lparr>rafSeq := Suc (rafSeq f)\<rparr>"
    by (simp add: cancelAnimationFrame_def requestAnimationFrame_def)
  with s1 s2 h2 show ?thesis
    by (simp add: and_then_def)
qed

text \<open>
  C8. The modules of the repository meet the lifecycle contract: \<open>TemplateAnimation\<close>, its
  first version, the \<open>ExampleAnimation\<close> of the notes for module authors, and every
  renderer of the common shape whose preparation and release leave \<open>frameId\<close> alone and
  for which WebGL, where it is asked for, is there. For every module that meets the
  contract: \<open>start()\<close> twice in a row returns and registers exactly one draw callback when
  the module was not running (one new handle, which \<open>frameId\<close> holds) and none when it
  was; \<open>stop()\<close> never throws, alone or twice in a row, the second call changes nothing
  more, and after it the module is not running; when the module was never started
  (\<open>frameId\<close> null) \<open>stop()\<close> leaves \<open>frameId\<close> null and the pending callbacks as they
  were, and when it held a handle, \<open>frameId\<close> is null afterwards and that callback is no
  longer pending (it is the only one removed). \<open>start()\<close> and then \<open>stop()\<close> leaves the
  pending callbacks as they were before. For \<open>TemplateAnimation\<close> the second call of either
  leaves the whole object untouched.
\<close>

theorem lifecycle_start_stop_idempotent:
  "lifecycle_contract TemplateAnimation_start TemplateAnimation_stop
   \<and> lifecycle_contract TemplateAnimation_v1_start TemplateAnimation_stop
   \<and> lifecycle_contract ExampleAnimation_start ExampleAnimation_stop
   \<and> ((\<forall>x. frameId (prepare x) = frameId x \<and> webglSupported (prepare x)
             \<and> frameId (release x) = frameId x)
        \<longrightarrow> lifecycle_contract (renderer_start prepare webglSupported) (renderer_stop release))
   \<and> (lifecycle_contract start_m stop_m \<longrightarrow>
        (\<exists>a'. and_then (start_m (a, f)) start_m =
                 Returned (a', if truthy (frameId a) then f
                               else f\<lparr>rafSeq := Suc (rafSeq f),
                                      rafPending := rafPending f @ [Suc (rafSeq f)]\<rparr>)
             \<and> frameId a' = (if truthy (frameId a) then frameId a else Some (Suc (rafSeq f))))
        \<and> \<not> throws (stop_m (a, f))
        \<and> \<not> throws (and_then (stop_m (a, f)) stop_m)
        \<and> snd (state_of (and_then (stop_m (a, f)) stop_m)) = snd (state_of (stop_m (a, f)))
        \<and> frameId (fst (state_of (and_then (stop_m (a, f)) stop_m)))
            = frameId (fst (state_of (stop_m (a, f))))
        \<and> \<not> truthy (frameId (fst (state_of (stop_m (a, f)))))
        \<and> (case frameId a of
              None \<Rightarrow> frameId (fst (state_of (stop_m (a, f)))) = None
                       \<and> snd (state_of (stop_m (a, f))) = f
            | Some h \<Rightarrow>
                if h = 0 then snd (state_of (stop_m (a, f))) = f
                else frameId (fst (state_of (stop_m (a, f)))) = None
                     \<and> h \<notin> set (rafPending (snd (state_of (stop_m (a, f)))))
                     \<and> snd (state_of (stop_m (a, f))) = f\<lparr>rafPending := removeAll h (rafPending f)\<rparr>)
        \<and> (\<not> truthy (frameId a) \<and> (\<forall>h \<in> set (rafPending f). h \<le> rafSeq f) \<longrightarrow>
              frameId (fst (state_of (and_then (start_m (a, f)) stop_m))) = None
              \<and> rafPending (snd (state_of (and_then (start_m (a, f)) stop_m))) = rafPending f))
   \<and> and_then (TemplateAnimation_start (a, f)) TemplateAnimation_start = TemplateAnimation_start (a, f)
   \<and> and_then (TemplateAnimation_stop (a, f)) TemplateAnimation_stop = TemplateAnimation_stop (a, f)
   \<and> (frameId a = None \<longrightarrow> TemplateAnimation_stop (a, f) = Returned (a, f))"
proof -
  have renderers: "lifecycle_contract (renderer_start prepare webglSupported) (renderer_stop release)"
    if "\<forall>x. frameId (prepare x) = frameId x \<and> webglSupported (prepare x)
             \<and> frameId (release x) = frameId x"
    using that by (intro renderer_conforms) simp_all
  have general:
    "(\<exists>a'. and_then (start_m (a, f)) start_m =
                 Returned (a', if truthy (frameId a) then f
                               else f\<lparr>rafSeq := Suc (rafSeq f),
                                      rafPending := rafPending f @ [Suc (rafSeq f)]\<rparr>)
             \<and> frameId a' = (if truthy (frameId a) then frameId a else Some (Suc (rafSeq f))))
        \<and> \<not> throws (stop_m (a, f))
        \<and> \<not> throws (and_then (stop_m (a, f)) stop_m)
        \<and> snd (state_of (and_then (stop_m (a, f)) stop_m)) = snd (state_of (stop_m (a, f)))
        \<and> frameId (fst (state_of (and_then (stop_m (a, f)) stop_m)))
            = frameId (fst (state_of (stop_m (a, f))))
        \<and> \<not> truthy (frameId (fst (state_of (stop_m (a, f)))))
        \<and> (case frameId a of
              None \<Rightarrow> frameId (fst (state_of (stop_m (a, f)))) = None
                       \<and> snd (state_of (stop_m (a, f))) = f
            | Some h \<Rightarrow>
                if h = 0 then snd (state_of (stop_m (a, f))) = f
                else frameId (fst (state_of (stop_m (a, f)))) = None
                     \<and> h \<notin> set (rafPending (snd (state_of (stop_m (a, f)))))
                     \<and> snd (state_of (stop_m (a, f))) = f\<lparr>rafPending := removeAll h (rafPending f)\<rparr>)
        \<and> (\<not> truthy (frameId a) \<and> (\<forall>h \<in> set (rafPending f). h \<le> rafSeq f) \<longrightarrow>
              frameId (fst (state_of (and_then (start_m (a, f)) stop_m))) = None
              \<and> rafPending (snd (state_of (and_then (start_m (a, f)) stop_m))) = rafPending f)"
    if c: "lifecycle_contract start_m stop_m"
  proof (intro conjI impI)
    from start_twice [OF c, of a f]
    show "\<exists>a'. and_then (start_m (a, f)) start_m =
                 Returned (a', if truthy (frameId a) then f
                               else f\<lparr>rafSeq := Suc (rafSeq f),
                                      rafPending := rafPending f @ [Suc (rafSeq f)]\<rparr>)
             \<and> frameId a' = (if truthy (frameId a) then frameId a else Some (Suc (rafSeq f)))"
      by (cases "truthy (frameId a)") (simp_all add: requestAnimationFrame_def)
  next
    from stop_twice [OF c, of a f] obtain a1 a2 f1 where
      s: "stop_m (a, f) = Returned (a1, f1)" "and_then (stop_m (a, f)) stop_m = Returned (a2, f1)"
      and f1: "f1 = (case frameId a of
                       None \<Rightarrow> f
                     | Some h \<Rightarrow> if h = 0 then f else cancelAnimationFrame h f)"
      and h: "frameId a1 = (if truthy (frameId a) then None else frameId a)" "frameId a2 = frameId a1"
      by blast
    from s show "\<not> throws (stop_m (a, f))" "\<not> throws (and_then (stop_m (a, f)) stop_m)"
      "snd (state_of (and_then (stop_m (a, f)) stop_m)) = snd (state_of (stop_m (a, f)))"
      by simp_all
    from s h show "frameId (fst (state_of (and_then (stop_m (a, f)) stop_m)))
            = frameId (fst (state_of (stop_m (a, f))))"
      by simp
    from s h show "\<not> truthy (frameId (fst (state_of (stop_m (a, f)))))"
      by (simp add: truthy_def split: if_splits)
    from s h f1 show "case frameId a of
              None \<Rightarrow> frameId (fst (state_of (stop_m (a, f)))) = None
                       \<and> snd (state_of (stop_m (a, f))) = f
            | Some h \<Rightarrow>
                if h = 0 then snd (state_of (stop_m (a, f))) = f
                else frameId (fst (state_of (stop_m (a, f)))) = None
                     \<and> h \<notin> set (rafPending (snd (state_of (stop_m (a, f)))))
                     \<and> snd (state_of (stop_m (a, f))) = f\<lparr>rafPending := removeAll h (rafPending f)\<rparr>"
      by (cases "frameId a") (simp_all add: truthy_def cancelAnimationFrame_def)
  next
    assume "\<not> truthy (frameId a) \<and> (\<forall>h \<in> set (rafPending f). h \<le> rafSeq f)"
    with start_then_stop [OF c, of a f] obtain a' where
      "and_then (start_m (a, f)) stop_m = Returned (a', f\<lparr>rafSeq := Suc (rafSeq f)\<rparr>)"
      "frameId a' = None"
      by blast
    then show "frameId (fst (state_of (and_then (start_m (a, f)) stop_m))) = None"
      "rafPending (snd (state_of (and_then (start_m (a, f)) stop_m))) = rafPending f"
      by simp_all
  qed
  have start2: "and_then (TemplateAnimation_start (a, f)) TemplateAnimation_start
                  = TemplateAnimation_start (a, f)"
  proof (cases "truthy (frameId a)")
    case True
    then show ?thesis
      by (simp add: TemplateAnimation_start_running and_then_def)
  next
    case False
    then show ?thesis
      by (simp add: TemplateAnimation_start_fresh and_then_def TemplateAnimation_start_running
          truthy_def)
  qed
  have stop_cases: "TemplateAnimation_stop (a, f) = Returned (a, f) \<and> \<not> truthy (frameId a)
      \<or> (\<exists>h. frameId a = Some h \<and> h \<noteq> 0
            \<and> TemplateAnimation_stop (a, f) = Returned (a\<lparr>frameId := None\<rparr>, cancelAnimationFrame h f))"
    by (cases "frameId a") (auto simp: TemplateAnimation_stop_def truthy_def)
  have stop2: "and_then (TemplateAnimation_stop (a, f)) TemplateAnimation_stop
                 = TemplateAnimation_stop (a, f)"
    using stop_cases
    by (auto simp: and_then_def TemplateAnimation_stop_stopped truthy_def)
  have stop_null: "frameId a = None \<longrightarrow> TemplateAnimation_stop (a, f) = Returned (a, f)"
    by (simp add: TemplateAnimation_stop_stopped truthy_def)
  from TemplateAnimation_conforms TemplateAnimation_v1_conforms ExampleAnimation_conforms
    renderers general start2 stop2 stop_null
  show ?thesis
    by blast
qed

theorem lifecycle_start_stop_idempotent_witness:
  "(\<exists>a'. and_then (TemplateAnimation_start (self (TemplateAnimation (800, 600)), \<lparr>rafSeq = 4, rafPending = [4]\<rparr>))
            TemplateAnimation_start
          = Returned (a', \<lparr>rafSeq = 5, rafPending = [4, 5]\<rparr>) \<and> frameId a' = Some 5)
   \<and> and_then (TemplateAnimation_stop (self (TemplateAnimation (800, 600)), \<lparr>rafSeq = 4, rafPending = [4]\<rparr>))
        TemplateAnimation_stop
      = Returned (self (TemplateAnimation (800, 600)), \<lparr>rafSeq = 4, rafPending = [4]\<rparr>)
   \<and> rafPending (snd (state_of (and_then
        (TemplateAnimation_start (self (TemplateAnimation (800, 600)), \<lparr>rafSeq = 4, rafPending = [4]\<rparr>))
        TemplateAnimation_stop))) = [4]
   \<and> frameId (fst (state_of (and_then
        (TemplateAnimation_start (self (TemplateAnimation (800, 600)), \<lparr>rafSeq = 4, rafPending = [4]\<rparr>))
        TemplateAnimation_stop))) = None
   \<and> 5 \<notin> set (rafPending (snd (state_of (TemplateAnimation_stop
        ((self (TemplateAnimation (800, 600)))\<lparr>frameId := Some 5\<rparr>, \<lparr>rafSeq = 5, rafPending = [4, 5]\<rparr>)))))"
proof -
  let ?a = "self (TemplateAnimation (800, 600))"
  let ?f = "\<lparr>rafSeq = 4, rafPending = [4]\<rparr>"
  let ?b = "?a\<lparr>frameId := Some 5\<rparr>"
  let ?g = "\<lparr>rafSeq = 5, rafPending = [4, 5]\<rparr>"
  have fresh: "frameId ?a = None" "\<not> truthy (frameId ?a)"
    by (simp_all add: TemplateAnimation_def truthy_def)
  have wf: "\<forall>h \<in> set (rafPending ?f). h \<le> rafSeq ?f"
    by simp
  note T = lifecycle_start_stop_idempotent
    [where a = ?a and f = ?f and start_m = TemplateAnimation_start and stop_m = TemplateAnimation_stop]
  note U = lifecycle_start_stop_idempotent
    [where a = ?b and f = ?g and start_m = TemplateAnimation_start and stop_m = TemplateAnimation_stop]
  from T have c: "lifecycle_contract TemplateAnimation_start TemplateAnimation_stop"
    by (rule conjunct1)
  note G = mp [OF T [THEN conjunct2, THEN conjunct2, THEN conjunct2, THEN conjunct2, THEN conjunct1] c]
  note H = mp [OF U [THEN conjunct2, THEN conjunct2, THEN conjunct2, THEN conjunct2, THEN conjunct1] c]
  from G [THEN conjunct1] fresh
  have twice: "\<exists>a'. and_then (TemplateAnimation_start (?a, ?f)) TemplateAnimation_start
          = Returned (a', \<lparr>rafSeq = 5, rafPending = [4, 5]\<rparr>) \<and> frameId a' = Some 5"
    by simp
  from T fresh have "and_then (TemplateAnimation_stop (?a, ?f)) TemplateAnimation_stop
      = TemplateAnimation_stop (?a, ?f)" "TemplateAnimation_stop (?a, ?f) = Returned (?a, ?f)"
    by blast+
  then have stop2: "and_then (TemplateAnimation_stop (?a, ?f)) TemplateAnimation_stop
      = Returned (?a, ?f)"
    by simp
  from G fresh wf have restored:
    "frameId (fst (state_of (and_then (TemplateAnimation_start (?a, ?f)) TemplateAnimation_stop))) = None
     \<and> rafPending (snd (state_of (and_then (TemplateAnimation_start (?a, ?f)) TemplateAnimation_stop))) = [4]"
    by simp
  from H have gone: "5 \<notin> set (rafPending (snd (state_of (TemplateAnimation_stop (?b, ?g)))))"
    by simp
  from twice stop2 restored gone show ?thesis
    by simp
qed

section \<open>Properties of the rotation: pending timeouts\<close>

lemma call_lifecycle_controls:
  "same_controls p (state_of (call_lifecycle m k p))"
  by (simp add: same_controls_def call_lifecycle_def store_instance_def
      split: option.splits outcome.splits)

lemma call_lifecycle_controls_cases:
  "call_lifecycle m k p = Returned q \<Longrightarrow> same_controls p q"
  "call_lifecycle m k p = Thrown e q \<Longrightarrow> same_controls p q"
  using call_lifecycle_controls [of p m k] by simp_all

lemma showIndex_controls:
  "same_controls p (state_of (showIndex i p))"
  by (auto simp: showIndex_def Let_def hideAll_def same_controls_def
      split: option.splits outcome.splits
      dest!: call_lifecycle_controls_cases)

lemma showIndex_controls_cases:
  "showIndex i p = Returned q \<Longrightarrow> same_controls p q"
  "showIndex i p = Thrown e q \<Longrightarrow> same_controls p q"
  using showIndex_controls [of p i] by simp_all

lemma same_controls_timers_tracked:
  "same_controls p q \<Longrightarrow> timers_tracked p \<Longrightarrow> timers_tracked q"
  by (simp add: same_controls_def timers_tracked_def tracked_def)

lemma same_controls_tracked:
  "same_controls p q \<Longrightarrow> tracked p \<Longrightarrow> tracked q"
  by (simp add: same_controls_def tracked_def)

lemma clear_if_set_empty:
  assumes "tracked p"
  shows "pending (window_timeouts (clear_if_set p)) = []"
    and "rotationTimer (clear_if_set p) = rotationTimer p"
    and "paused (clear_if_set p) = paused p"
proof -
  show "pending (window_timeouts (clear_if_set p)) = []"
  proof (cases "rotationTimer p")
    case None
    with assms have "pending (window_timeouts p) = []"
      by (cases "pending (window_timeouts p)") (auto simp: tracked_def)
    with None show ?thesis by (simp add: clear_if_set_def truthy_def)
  next
    case (Some t)
    with assms have "\<forall>x \<in> set (pending (window_timeouts p)). fst x = t" and "t \<noteq> 0"
      by (auto simp: tracked_def)
    then have "filter (\<lambda>(t', ms). t' \<noteq> t) (pending (window_timeouts p)) = []"
      by (auto simp: filter_empty_conv)
    with Some \<open>t \<noteq> 0\<close> show ?thesis
      by (simp add: clear_if_set_def truthy_def clearTimeout_def)
  qed
  show "rotationTimer (clear_if_set p) = rotationTimer p"
    and "paused (clear_if_set p) = paused p"
    by (simp_all add: clear_if_set_def)
qed

lemma schedule_timers_tracked:
  "pending (window_timeouts p) = [] \<Longrightarrow> \<not> paused p \<Longrightarrow> timers_tracked (schedule d p)"
  by (simp add: schedule_def setTimeout_def timers_tracked_def tracked_def)

lemma schedule_pending:
  "pending (window_timeouts p) = [] \<Longrightarrow>
   pending (window_timeouts (schedule d p)) = [(Suc (timerSeq (window_timeouts p)), d * 1000)]"
  by (simp add: schedule_def setTimeout_def)

lemma rotateNext_timers_tracked:
  assumes "tracked p" and "paused p \<longrightarrow> pending (window_timeouts p) = []"
  shows "timers_tracked (state_of (rotateNext step p))"
proof -
  let ?next = "js_rem (currentIndex p + step + int (length (loaded p))) (int (length (loaded p)))"
  show ?thesis
  proof (cases "showIndex ?next p")
    case (Thrown e q)
    then have "same_controls p q" by (rule showIndex_controls_cases)
    with assms have "timers_tracked q"
      by (simp add: same_controls_def timers_tracked_def tracked_def)
    with Thrown show ?thesis by (simp add: rotateNext_def Let_def)
  next
    case (Returned q)
    then have sc: "same_controls p q" by (rule showIndex_controls_cases)
    with assms have tq: "tracked q" by (simp add: same_controls_tracked)
    note c = clear_if_set_empty [OF tq]
    show ?thesis
    proof (cases "paused q")
      case True
      with c tq have "timers_tracked (clear_if_set q)"
        by (simp add: timers_tracked_def tracked_def)
      with True Returned c show ?thesis by (simp add: rotateNext_def Let_def)
    next
      case False
      with c have "timers_tracked (schedule (item_duration (js_index (loaded q) ?next)) (clear_if_set q))"
        by (simp add: schedule_timers_tracked)
      with False Returned c show ?thesis by (simp add: rotateNext_def Let_def)
    qed
  qed
qed

lemma rotateNext_paused_no_timer:
  assumes "timers_tracked p" and "paused p"
  shows "pending (window_timeouts (state_of (rotateNext step p))) = []"
    and "paused (state_of (rotateNext step p))"
proof -
  let ?next = "js_rem (currentIndex p + step + int (length (loaded p))) (int (length (loaded p)))"
  have both: "pending (window_timeouts (state_of (rotateNext step p))) = []
      \<and> paused (state_of (rotateNext step p))"
  proof (cases "showIndex ?next p")
    case (Thrown e q)
    then have "same_controls p q" by (rule showIndex_controls_cases)
    with assms Thrown show ?thesis
      by (simp add: rotateNext_def Let_def same_controls_def timers_tracked_def)
  next
    case (Returned q)
    then have sc: "same_controls p q" by (rule showIndex_controls_cases)
    with assms have tq: "tracked q" by (simp add: same_controls_tracked timers_tracked_def)
    note c = clear_if_set_empty [OF tq]
    from sc assms have "paused q" by (simp add: same_controls_def)
    with Returned c show ?thesis by (simp add: rotateNext_def Let_def)
  qed
  from both show "pending (window_timeouts (state_of (rotateNext step p))) = []"
    and "paused (state_of (rotateNext step p))" by simp_all
qed

lemma pause_click_timers_tracked:
  assumes "timers_tracked p"
  shows "timers_tracked (pause_click p)"
proof (cases "paused p")
  case True
  from assms have "tracked (p\<lparr>paused := False\<rparr>)" by (simp add: timers_tracked_def tracked_def)
  from clear_if_set_empty [OF this] True show ?thesis
    by (simp add: pause_click_def Let_def schedule_timers_tracked)
next
  case False
  from assms have tr: "tracked p" by (simp add: timers_tracked_def)
  have "filter (\<lambda>(t', ms). t' \<noteq> t) (pending (window_timeouts p)) = []"
    if "rotationTimer p = Some t" for t
    using tr that by (auto simp: tracked_def filter_empty_conv)
  moreover have "pending (window_timeouts p) = []" if "rotationTimer p = None"
    using tr that by (cases "pending (window_timeouts p)") (auto simp: tracked_def)
  ultimately show ?thesis
    using False
    by (cases "rotationTimer p")
      (simp_all add: pause_click_def Let_def timers_tracked_def tracked_def clearTimeout_def)
qed

lemma pause_click_pauses:
  assumes "timers_tracked p" and "\<not> paused p"
  shows "paused (pause_click p) \<and> pending (window_timeouts (pause_click p)) = []
         \<and> rotationTimer (pause_click p) = None"
  using pause_click_timers_tracked [OF assms(1)] assms(2)
  by (simp add: pause_click_def Let_def timers_tracked_def)

lemma timeout_fires_timers_tracked:
  assumes "timers_tracked p"
  shows "timers_tracked (state_of (timeout_fires t p))"
proof (cases "t \<in> set (map fst (pending (window_timeouts p)))")
  case False
  with assms show ?thesis by (simp add: timeout_fires_def)
next
  case True
  let ?q = "p\<lparr>window_timeouts := clearTimeout (Some t) (window_timeouts p)\<rparr>"
  from True assms have np: "\<not> paused p" by (auto simp: timers_tracked_def)
  from assms have "tracked ?q"
    by (auto simp: timers_tracked_def tracked_def clearTimeout_def)
  moreover from np have "paused ?q \<longrightarrow> pending (window_timeouts ?q) = []" by simp
  ultimately have "timers_tracked (state_of (rotateNext 1 ?q))"
    by (rule rotateNext_timers_tracked)
  with True show ?thesis by (simp add: timeout_fires_def)
qed

lemma timeout_fires_paused:
  "timers_tracked p \<Longrightarrow> paused p \<Longrightarrow> timeout_fires t p = Returned p"
  by (simp add: timeout_fires_def timers_tracked_def)

lemma prev_next_click_timers_tracked:
  assumes "timers_tracked p"
  shows "timers_tracked (state_of (prev_click p))" and "timers_tracked (state_of (next_click p))"
proof -
  from assms have "tracked (p\<lparr>paused := False\<rparr>)" by (simp add: timers_tracked_def tracked_def)
  then show "timers_tracked (state_of (prev_click p))" and "timers_tracked (state_of (next_click p))"
    unfolding prev_click_def next_click_def
    by (rule rotateNext_timers_tracked, simp)+
qed

lemma handle_event_timers_tracked:
  "timers_tracked p \<Longrightarrow> timers_tracked (handle_event ev p)"
proof (cases ev)
  case (ShowIndexCall i)
  assume "timers_tracked p"
  with showIndex_controls [of p i] ShowIndexCall show ?thesis
    by (simp add: same_controls_timers_tracked)
next
  case (RotateNextCall step)
  assume "timers_tracked p"
  then have "timers_tracked (state_of (rotateNext step p))"
    by (intro rotateNext_timers_tracked) (simp_all add: timers_tracked_def)
  with RotateNextCall show ?thesis by simp
qed (simp_all add: prev_next_click_timers_tracked pause_click_timers_tracked
      timeout_fires_timers_tracked)

lemma startup_timers_tracked:
  "timers_tracked (state_of (startup entries f))"
proof (cases "showIndex 0 (init_page entries f)")
  case (Thrown e q)
  then have "same_controls (init_page entries f) q" by (rule showIndex_controls_cases)
  then have "timers_tracked q"
    by (simp add: same_controls_def timers_tracked_def tracked_def init_page_def)
  with Thrown show ?thesis by (simp add: startup_def)
next
  case (Returned q)
  then have "same_controls (init_page entries f) q" by (rule showIndex_controls_cases)
  then have "pending (window_timeouts q) = []" and "\<not> paused q"
    by (simp_all add: same_controls_def init_page_def)
  then have "timers_tracked (schedule d q)" for d
    by (rule schedule_timers_tracked)
  with Returned show ?thesis by (simp add: startup_def)
qed

lemma run_events_timers_tracked:
  "timers_tracked p \<Longrightarrow> timers_tracked (run_events es p)"
  unfolding run_events_def
  by (induction es arbitrary: p) (simp_all add: handle_event_timers_tracked)

lemma startup_not_paused:
  "\<not> paused (state_of (startup entries f))"
proof -
  have "\<not> paused (state_of (showIndex 0 (init_page entries f)))"
    using showIndex_controls [of "init_page entries f" 0]
    by (simp add: same_controls_def init_page_def)
  then show ?thesis
    by (cases "showIndex 0 (init_page entries f)") (simp_all add: startup_def schedule_def split_def)
qed

text \<open>
  C7. In every state the page can reach after \<open>init\<close>, through any sequence of clicks,
  timeouts and calls of \<open>rotateNext\<close> and \<open>showIndex\<close>, whatever the modules do: a click on
  pause while rotation runs cancels the pending timeout and leaves none pending; while
  rotation is paused no timeout is pending, so no timeout callback (and with it no
  \<open>showIndex\<close>) can run however much time passes, and a call of \<open>rotateNext\<close> schedules
  none and leaves rotation paused.
\<close>

theorem paused_no_auto_advance:
  assumes "p = run_events es (state_of (startup entries f))"
  shows "(\<not> paused p \<longrightarrow>
            paused (pause_click p) \<and> pending (window_timeouts (pause_click p)) = []
            \<and> rotationTimer (pause_click p) = None)
         \<and> (paused p \<longrightarrow>
            pending (window_timeouts p) = []
            \<and> (\<forall>t. timeout_fires t p = Returned p)
            \<and> (\<forall>step. pending (window_timeouts (state_of (rotateNext step p))) = []
                       \<and> paused (state_of (rotateNext step p))))"
proof -
  have inv: "timers_tracked p"
    unfolding assms by (rule run_events_timers_tracked) (rule startup_timers_tracked)
  show ?thesis
  proof (intro conjI impI allI)
    assume "\<not> paused p"
    with inv show "paused (pause_click p)" "pending (window_timeouts (pause_click p)) = []"
      "rotationTimer (pause_click p) = None"
      using pause_click_pauses [of p] by simp_all
  next
    assume "paused p"
    with inv show "pending (window_timeouts p) = []"
      by (simp add: timers_tracked_def)
  next
    fix t assume "paused p"
    with inv show "timeout_fires t p = Returned p"
      by (rule timeout_fires_paused)
  next
    fix step assume "paused p"
    with inv show "pending (window_timeouts (state_of (rotateNext step p))) = []"
      "paused (state_of (rotateNext step p))"
      by (rule rotateNext_paused_no_timer)+
  qed
qed

theorem paused_no_auto_advance_witness:
  "paused (run_events [PauseClick] (state_of (startup example_entries example_frames)))
   \<and> pending (window_timeouts
        (run_events [PauseClick] (state_of (startup example_entries example_frames)))) = []
   \<and> timeout_fires 1 (run_events [PauseClick] (state_of (startup example_entries example_frames)))
       = Returned (run_events [PauseClick] (state_of (startup example_entries example_frames)))
   \<and> pending (window_timeouts (state_of (rotateNext 1
        (run_events [PauseClick] (state_of (startup example_entries example_frames)))))) = []"
proof -
  let ?p0 = "state_of (startup example_entries example_frames)"
  have running: "\<not> paused (run_events [] ?p0)"
    by (simp add: run_events_def startup_not_paused)
  from paused_no_auto_advance [of "run_events [] ?p0" "[]" example_entries example_frames] running
  have p1: "paused (pause_click (run_events [] ?p0))"
    by simp
  then have "paused (run_events [PauseClick] ?p0)"
    by (simp add: run_events_def)
  with paused_no_auto_advance [of "run_events [PauseClick] ?p0" "[PauseClick]" example_entries example_frames]
  show ?thesis
    by simp
qed

section \<open>Properties of the rotation: which module runs\<close>

lemma contract_holds_and_releases:
  assumes "lifecycle_contract start_m stop_m"
  shows "holds_and_releases start_m stop_m"
  unfolding holds_and_releases_def
proof (intro allI conjI)
  fix a f
  from contract_start [OF assms, of a f] obtain a' where
    "start_m (a, f) = Returned (a', if truthy (frameId a) then f else snd (requestAnimationFrame f))"
    "frameId a' = (if truthy (frameId a) then frameId a else Some (fst (requestAnimationFrame f)))"
    by blast
  moreover from this(2) have "truthy (frameId a')"
    by (simp add: truthy_def requestAnimationFrame_def split: if_splits)
  ultimately show "\<exists>a' f'. start_m (a, f) = Returned (a', f') \<and> truthy (frameId a')"
    by blast
  from contract_stop [OF assms, of a f] obtain a' where
    "stop_m (a, f) =
       Returned (a', case frameId a of
                       None \<Rightarrow> f
                     | Some h \<Rightarrow> if h = 0 then f else cancelAnimationFrame h f)"
    "frameId a' = (if truthy (frameId a) then None else frameId a)"
    by blast
  moreover from this(2) have "\<not> truthy (frameId a')"
    by (simp add: truthy_def split: if_splits)
  ultimately show "\<exists>a' f'. stop_m (a, f) = Returned (a', f') \<and> \<not> truthy (frameId a')"
    by blast
qed

lemma conforming_switchable: "conforming_item it \<Longrightarrow> switchable_item it"
  by (auto simp: conforming_item_def switchable_item_def contract_holds_and_releases
      split: option.splits)

lemma conforming_modules_switchable: "conforming_modules xs \<Longrightarrow> switchable_modules xs"
  by (simp add: conforming_modules_def switchable_modules_def conforming_switchable)

lemma switchable_modules_update:
  "switchable_modules xs \<Longrightarrow> switchable_item y \<Longrightarrow> switchable_modules (xs[k := y])"
  unfolding switchable_modules_def
  using set_update_subset_insert [of xs k y] by auto

lemma conforming_modules_update:
  "conforming_modules xs \<Longrightarrow> conforming_item y \<Longrightarrow> conforming_modules (xs[k := y])"
  unfolding conforming_modules_def
  using set_update_subset_insert [of xs k y] by auto

lemma item_running_handles: "item_running it \<longleftrightarrow> handles_of it \<noteq> []"
  by (simp add: item_running_def handles_of_def truthy_def split: option.splits)

lemma held_handles_none:
  "(\<And>j. j < length xs \<Longrightarrow> \<not> item_running (xs ! j)) \<Longrightarrow> held_handles xs = []"
  by (auto simp: held_handles_def item_running_handles in_set_conv_nth)

lemma held_handles_single:
  "k < length xs \<Longrightarrow> (\<And>j. j < length xs \<Longrightarrow> j \<noteq> k \<Longrightarrow> \<not> item_running (xs ! j)) \<Longrightarrow>
   held_handles xs = handles_of (xs ! k)"
proof (induction xs arbitrary: k)
  case Nil
  then show ?case by simp
next
  case (Cons x xs)
  show ?case
  proof (cases k)
    case 0
    have "\<not> item_running (xs ! j)" if "j < length xs" for j
      using Cons.prems(2) [of "Suc j"] that 0 by simp
    then have "held_handles xs = []" by (rule held_handles_none)
    with 0 show ?thesis by (simp add: held_handles_def)
  next
    case (Suc k')
    have "\<not> item_running x"
      using Cons.prems(2) [of 0] Suc by simp
    then have x: "handles_of x = []" by (simp add: item_running_handles)
    have "\<not> item_running (xs ! j)" if "j < length xs" "j \<noteq> k'" for j
      using Cons.prems(2) [of "Suc j"] that Suc by simp
    with Cons.IH [of k'] Cons.prems(1) Suc have "held_handles xs = handles_of (xs ! k')"
      by simp
    with x Suc show ?thesis by (simp add: held_handles_def)
  qed
qed

lemma removeAll_as_filter: "removeAll h xs = filter (\<lambda>x. x \<notin> {h}) xs"
  by (induction xs) auto

lemma filter_own_handles:
  assumes "distinct (base @ hs)"
  shows "filter (\<lambda>h. h \<notin> set hs) (base @ hs) = base"
proof -
  from assms have "set base \<inter> set hs = {}" by simp
  then have "filter (\<lambda>h. h \<notin> set hs) base = base"
    by (intro filter_True) auto
  moreover have "filter (\<lambda>h. h \<notin> set hs) hs = []"
    by (simp add: filter_empty_conv)
  ultimately show ?thesis by simp
qed

text \<open>
  \<open>stop\<close> on the entry at \<open>k\<close>, when its module can be switched: the call returns and
  the module is not running afterwards. When the module meets the contract, exactly the
  callback it held is gone from the pending ones.
\<close>

lemma call_stop_contract:
  assumes "switchable_item (loaded p ! k)" and "k < length (loaded p)"
  shows "\<exists>q it'. call_lifecycle stop k p = Returned q
           \<and> loaded q = (loaded p)[k := it']
           \<and> \<not> item_running it' \<and> switchable_item it'
           \<and> (item_instance it' = None \<longleftrightarrow> item_instance (loaded p ! k) = None)
           \<and> same_rotation p q
           \<and> (conforming_item (loaded p ! k) \<longrightarrow>
                conforming_item it'
                \<and> rafSeq (window_frames q) = rafSeq (window_frames p)
                \<and> rafPending (window_frames q)
                    = filter (\<lambda>h. h \<notin> set (handles_of (loaded p ! k))) (rafPending (window_frames p)))"
proof (cases "item_instance (loaded p ! k)")
  case None
  with assms show ?thesis
    by (intro exI [of _ p] exI [of _ "loaded p ! k"])
      (simp add: call_lifecycle_def js_index_def item_running_def same_rotation_def handles_of_def)
next
  case (Some inst)
  with assms obtain start_m stop_m where st: "start inst = Some start_m" "stop inst = Some stop_m"
    and hr: "holds_and_releases start_m stop_m"
    by (auto simp: switchable_item_def split: option.splits)
  let ?f = "window_frames p"
  from hr obtain a' f' where r: "stop_m (self inst, ?f) = Returned (a', f')"
    and off: "\<not> truthy (frameId a')"
    unfolding holds_and_releases_def by blast
  let ?q = "store_instance k inst (a', f') p"
  let ?it = "(loaded p ! k)\<lparr>item_instance := Some (inst\<lparr>self := a'\<rparr>)\<rparr>"
  have call: "call_lifecycle stop k p = Returned ?q"
    using assms(2) Some st r by (simp add: call_lifecycle_def js_index_def)
  have q: "loaded ?q = (loaded p)[k := ?it]" "same_rotation p ?q" "window_frames ?q = f'"
    by (simp_all add: store_instance_def same_rotation_def)
  have it: "\<not> item_running ?it" "switchable_item ?it"
    "(item_instance ?it = None) = (item_instance (loaded p ! k) = None)"
    using off st hr Some by (simp_all add: item_running_def switchable_item_def)
  have frames: "conforming_item ?it \<and> rafSeq f' = rafSeq ?f
      \<and> rafPending f' = filter (\<lambda>h. h \<notin> set (handles_of (loaded p ! k))) (rafPending ?f)"
    if "conforming_item (loaded p ! k)"
  proof -
    from that Some st have c: "lifecycle_contract start_m stop_m"
      by (simp add: conforming_item_def)
    let ?f' = "case frameId (self inst) of
                 None \<Rightarrow> ?f
               | Some h \<Rightarrow> if h = 0 then ?f else cancelAnimationFrame h ?f"
    from contract_stop [OF c, of "self inst" ?f] r have f': "f' = ?f'"
      by auto
    have "rafSeq ?f' = rafSeq ?f"
      by (simp add: cancelAnimationFrame_def split: option.splits)
    moreover have "rafPending ?f'
        = filter (\<lambda>h. h \<notin> set (handles_of (loaded p ! k))) (rafPending ?f)"
      using Some
      by (simp add: handles_of_def cancelAnimationFrame_def removeAll_as_filter
          split: option.splits)
    moreover have "conforming_item ?it"
      using st c by (simp add: conforming_item_def)
    ultimately show ?thesis
      unfolding f' by blast
  qed
  from call q it frames show ?thesis
    by (intro exI [of _ ?q] exI [of _ ?it]) simp
qed

text \<open>
  \<open>start\<close> on the entry at \<open>k\<close>, when its module can be switched: the call returns and
  the module runs afterwards if there is one. When the module meets the contract and was
  not running, its callback is the one new pending callback.
\<close>

lemma call_start_contract:
  assumes "switchable_item (loaded p ! k)" and "k < length (loaded p)"
  shows "\<exists>q it'. call_lifecycle start k p = Returned q
           \<and> loaded q = (loaded p)[k := it']
           \<and> (item_running it' \<longleftrightarrow> item_instance (loaded p ! k) \<noteq> None) \<and> switchable_item it'
           \<and> (item_instance it' = None \<longleftrightarrow> item_instance (loaded p ! k) = None)
           \<and> same_rotation p q
           \<and> (conforming_item (loaded p ! k) \<and> \<not> item_running (loaded p ! k) \<longrightarrow>
                conforming_item it'
                \<and> window_frames q = (if item_instance (loaded p ! k) = None then window_frames p
                                      else snd (requestAnimationFrame (window_frames p)))
                \<and> handles_of it' = (if item_instance (loaded p ! k) = None then []
                                    else [Suc (rafSeq (window_frames p))]))"
proof (cases "item_instance (loaded p ! k)")
  case None
  with assms show ?thesis
    by (intro exI [of _ p] exI [of _ "loaded p ! k"])
      (simp add: call_lifecycle_def js_index_def item_running_def same_rotation_def handles_of_def)
next
  case (Some inst)
  with assms obtain start_m stop_m where st: "start inst = Some start_m" "stop inst = Some stop_m"
    and hr: "holds_and_releases start_m stop_m"
    by (auto simp: switchable_item_def split: option.splits)
  let ?f = "window_frames p"
  from hr obtain a' f' where r: "start_m (self inst, ?f) = Returned (a', f')"
    and on: "truthy (frameId a')"
    unfolding holds_and_releases_def by blast
  let ?q = "store_instance k inst (a', f') p"
  let ?it = "(loaded p ! k)\<lparr>item_instance := Some (inst\<lparr>self := a'\<rparr>)\<rparr>"
  have call: "call_lifecycle start k p = Returned ?q"
    using assms(2) Some st r by (simp add: call_lifecycle_def js_index_def)
  have q: "loaded ?q = (loaded p)[k := ?it]" "same_rotation p ?q" "window_frames ?q = f'"
    by (simp_all add: store_instance_def same_rotation_def)
  have it: "item_running ?it" "switchable_item ?it"
    "(item_instance ?it = None) = (item_instance (loaded p ! k) = None)"
    using on st hr Some by (simp_all add: item_running_def switchable_item_def)
  have frames: "conforming_item ?it \<and> f' = snd (requestAnimationFrame ?f)
      \<and> handles_of ?it = [Suc (rafSeq ?f)]"
    if "conforming_item (loaded p ! k)" "\<not> item_running (loaded p ! k)"
  proof -
    from that(1) Some st have c: "lifecycle_contract start_m stop_m"
      by (simp add: conforming_item_def)
    from that(2) Some have nr: "\<not> truthy (frameId (self inst))"
      by (simp add: item_running_def)
    from contract_start [OF c, of "self inst" ?f] nr r
    have "f' = snd (requestAnimationFrame ?f)" "frameId a' = Some (Suc (rafSeq ?f))"
      by (auto simp: requestAnimationFrame_def)
    moreover from this(2) have "handles_of ?it = [Suc (rafSeq ?f)]"
      by (simp add: handles_of_def)
    moreover have "conforming_item ?it"
      using st c by (simp add: conforming_item_def)
    ultimately show ?thesis by blast
  qed
  have run: "item_running ?it \<longleftrightarrow> item_instance (loaded p ! k) \<noteq> None"
    using it(1) Some by simp
  have last: "conforming_item (loaded p ! k) \<and> \<not> item_running (loaded p ! k) \<longrightarrow>
                conforming_item ?it
                \<and> window_frames ?q = (if item_instance (loaded p ! k) = None then window_frames p
                                       else snd (requestAnimationFrame (window_frames p)))
                \<and> handles_of ?it = (if item_instance (loaded p ! k) = None then []
                                     else [Suc (rafSeq (window_frames p))])"
  proof
    assume a: "conforming_item (loaded p ! k) \<and> \<not> item_running (loaded p ! k)"
    from frames [OF conjunct1 [OF a] conjunct2 [OF a]]
    have "conforming_item ?it" "f' = snd (requestAnimationFrame ?f)"
      "handles_of ?it = [Suc (rafSeq ?f)]"
      by blast+
    with q(3) Some show "conforming_item ?it
                \<and> window_frames ?q = (if item_instance (loaded p ! k) = None then window_frames p
                                       else snd (requestAnimationFrame (window_frames p)))
                \<and> handles_of ?it = (if item_instance (loaded p ! k) = None then []
                                     else [Suc (rafSeq (window_frames p))])"
      by simp
  qed
  from call q(1) run it(2,3) q(2) last show ?thesis
    by (intro exI [of _ ?q] exI [of _ ?it] conjI)
qed

lemma instances_kept_refl [simp]: "instances_kept p p"
  by (simp add: instances_kept_def)

lemma instances_kept_trans:
  "instances_kept p q \<Longrightarrow> instances_kept q r \<Longrightarrow> instances_kept p r"
  by (simp add: instances_kept_def)

lemma instances_kept_length:
  "instances_kept p q \<Longrightarrow> length (loaded q) = length (loaded p)"
  unfolding instances_kept_def by (rule map_eq_imp_length_eq)

lemma instances_kept_nth:
  "instances_kept p q \<Longrightarrow> j < length (loaded p) \<Longrightarrow>
   (item_instance (loaded q ! j) = None) = (item_instance (loaded p ! j) = None)"
  unfolding instances_kept_def
  by (metis (mono_tags, lifting) length_map nth_map)

lemma instances_kept_update:
  assumes "loaded q = (loaded p)[k := it']" and "k < length (loaded p)"
    and "(item_instance it' = None) = (item_instance (loaded p ! k) = None)"
  shows "instances_kept p q"
  unfolding instances_kept_def
  using assms by (simp add: list_eq_iff_nth_eq nth_list_update)

lemma stop_phase:
  assumes "only_current_runs p"
  shows "\<exists>q. (case currentItem p of None \<Rightarrow> Returned p | Some k \<Rightarrow> call_lifecycle stop k p) = Returned q
           \<and> switchable_modules (loaded q) \<and> instances_kept p q
           \<and> (\<forall>j < length (loaded q). \<not> item_running (loaded q ! j))
           \<and> (frames_owned base p \<longrightarrow>
                conforming_modules (loaded q)
                \<and> rafPending (window_frames q) = base \<and> wellformed_frames (window_frames q))"
proof (cases "currentItem p")
  case None
  with assms have nr: "\<And>j. j < length (loaded p) \<Longrightarrow> \<not> item_running (loaded p ! j)"
    by (auto simp: only_current_runs_def)
  then have "held_handles (loaded p) = []" by (rule held_handles_none)
  then have "frames_owned base p \<longrightarrow>
      conforming_modules (loaded p)
      \<and> rafPending (window_frames p) = base \<and> wellformed_frames (window_frames p)"
    by (simp add: frames_owned_def)
  with None assms nr show ?thesis
    by (auto simp: only_current_runs_def)
next
  case (Some k)
  with assms have k: "k < length (loaded p)" and tm: "switchable_modules (loaded p)"
    and others: "\<And>j. j < length (loaded p) \<Longrightarrow> item_running (loaded p ! j) \<Longrightarrow> j = k"
    by (auto simp: only_current_runs_def)
  from tm k have "switchable_item (loaded p ! k)"
    by (simp add: switchable_modules_def)
  from call_stop_contract [OF this k]
  obtain q it' where q: "call_lifecycle stop k p = Returned q"
    and l: "loaded q = (loaded p)[k := it']"
    and it': "\<not> item_running it'" "switchable_item it'"
      "(item_instance it' = None) = (item_instance (loaded p ! k) = None)"
    and fr: "conforming_item (loaded p ! k) \<Longrightarrow>
                conforming_item it'
                \<and> rafSeq (window_frames q) = rafSeq (window_frames p)
                \<and> rafPending (window_frames q)
                    = filter (\<lambda>h. h \<notin> set (handles_of (loaded p ! k))) (rafPending (window_frames p))"
    by auto
  from l tm it'(2) have "switchable_modules (loaded q)"
    by (simp add: switchable_modules_update)
  moreover from l k it'(3) have "instances_kept p q"
    by (rule instances_kept_update)
  moreover have "\<not> item_running (loaded q ! j)" if "j < length (loaded q)" for j
  proof (cases "j = k")
    case True
    with that l it'(1) show ?thesis by simp
  next
    case False
    with that l others [of j] show ?thesis by auto
  qed
  moreover have "conforming_modules (loaded q)
      \<and> rafPending (window_frames q) = base \<and> wellformed_frames (window_frames q)"
    if fo: "frames_owned base p"
  proof -
    from fo have cm: "conforming_modules (loaded p)"
      and own0: "rafPending (window_frames p) = base @ held_handles (loaded p)"
      and wf: "distinct (rafPending (window_frames p))"
        "\<forall>h \<in> set (rafPending (window_frames p)). h \<le> rafSeq (window_frames p)"
      unfolding frames_owned_def wellformed_frames_def by blast+
    from cm k have "conforming_item (loaded p ! k)"
      by (simp add: conforming_modules_def)
    from fr [OF this] have ci: "conforming_item it'"
      and seq: "rafSeq (window_frames q) = rafSeq (window_frames p)"
      and pend: "rafPending (window_frames q)
               = filter (\<lambda>h. h \<notin> set (handles_of (loaded p ! k))) (rafPending (window_frames p))"
      by blast+
    have "held_handles (loaded p) = handles_of (loaded p ! k)"
      using k others by (intro held_handles_single) auto
    with own0 have own: "rafPending (window_frames p) = base @ handles_of (loaded p ! k)"
      by (simp only:)
    from wf(1) have d: "distinct (base @ handles_of (loaded p ! k))"
      by (simp only: own)
    have b: "rafPending (window_frames q) = base"
      unfolding pend own using d by (rule filter_own_handles)
    from d have "distinct base" by simp
    moreover from wf(2) have "\<forall>h \<in> set base. h \<le> rafSeq (window_frames p)"
      unfolding own by simp
    moreover from l cm ci have "conforming_modules (loaded q)"
      by (simp add: conforming_modules_update)
    ultimately show ?thesis
      using b seq by (simp add: wellformed_frames_def)
  qed
  ultimately show ?thesis
    using Some q by simp
qed

lemma item_running_display [simp]:
  "item_running (it\<lparr>view_display := d\<rparr>) = item_running it"
  by (simp add: item_running_def)

lemma conforming_item_display [simp]:
  "conforming_item (it\<lparr>view_display := d\<rparr>) = conforming_item it"
  by (simp add: conforming_item_def)

lemma switchable_item_display [simp]:
  "switchable_item (it\<lparr>view_display := d\<rparr>) = switchable_item it"
  by (simp add: switchable_item_def)

lemma handles_of_display [simp]:
  "handles_of (it\<lparr>view_display := d\<rparr>) = handles_of it"
  by (simp add: handles_of_def)

lemma showIndex_shows:
  assumes ocr: "only_current_runs p" and i: "0 \<le> i" "i < int (length (loaded p))"
  shows "\<exists>q. showIndex i p = Returned q \<and> current_shown q \<and> currentIndex q = i
           \<and> instances_kept p q \<and> (frames_owned base p \<longrightarrow> frames_owned base q)"
proof -
  from stop_phase [OF ocr, of base]
  obtain p1 where p1: "(case currentItem p of None \<Rightarrow> Returned p
                        | Some k \<Rightarrow> call_lifecycle stop k p) = Returned p1"
    and tm1: "switchable_modules (loaded p1)" and ik1: "instances_kept p p1"
    and nr1: "\<And>j. j < length (loaded p1) \<Longrightarrow> \<not> item_running (loaded p1 ! j)"
    and fo1: "frames_owned base p \<Longrightarrow>
                conforming_modules (loaded p1)
                \<and> rafPending (window_frames p1) = base \<and> wellformed_frames (window_frames p1)"
    by blast
  have len1: "length (loaded p1) = length (loaded p)"
    using ik1 by (rule instances_kept_length)
  define n where "n = nat i"
  have n: "n < length (loaded p1)" "int n = i"
    using i len1 by (simp_all add: n_def)
  define p2 where "p2 = hideAll p1"
  define it where "it = loaded p2 ! n"
  define p3 where "p3 = p2\<lparr>loaded := (loaded p2)[n := it\<lparr>view_display := DisplayBlock\<rparr>]\<rparr>"
  have len3: "length (loaded p3) = length (loaded p1)"
    by (simp add: p3_def p2_def hideAll_def)
  have fr3: "window_frames p3 = window_frames p1"
    by (simp add: p3_def p2_def hideAll_def)
  have nth3: "loaded p3 ! j = (loaded p1 ! j)\<lparr>view_display := (if j = n then DisplayBlock else DisplayNone)\<rparr>"
    if "j < length (loaded p1)" for j
    using that n by (simp add: p3_def p2_def it_def hideAll_def nth_list_update)
  have tm3: "switchable_modules (loaded p3)"
    unfolding switchable_modules_def
  proof
    fix x assume "x \<in> set (loaded p3)"
    then obtain j where "j < length (loaded p3)" "x = loaded p3 ! j"
      by (auto simp: in_set_conv_nth)
    with tm1 len3 nth3 [of j] show "switchable_item x"
      by (simp add: switchable_modules_def)
  qed
  have cm3: "conforming_modules (loaded p3)" if "conforming_modules (loaded p1)"
    unfolding conforming_modules_def
  proof
    fix x assume "x \<in> set (loaded p3)"
    then obtain j where "j < length (loaded p3)" "x = loaded p3 ! j"
      by (auto simp: in_set_conv_nth)
    with that len3 nth3 [of j] show "conforming_item x"
      by (simp add: conforming_modules_def)
  qed
  have ik3: "instances_kept p1 p3"
    unfolding instances_kept_def using len3 nth3
    by (simp add: list_eq_iff_nth_eq)
  have idx: "js_index (loaded p2) i = Some it"
    using i len1 by (simp add: js_index_def p2_def hideAll_def it_def n_def)
  from tm3 n len3 have c3: "switchable_item (loaded p3 ! n)"
    by (simp add: switchable_modules_def)
  have n3: "n < length (loaded p3)" using n len3 by simp
  have nr3: "\<not> item_running (loaded p3 ! n)"
    using nr1 [of n] nth3 [of n] n by simp
  from call_start_contract [OF c3 n3]
  obtain p4 it' where started: "call_lifecycle start n p3 = Returned p4
           \<and> loaded p4 = (loaded p3)[n := it']
           \<and> (item_running it' \<longleftrightarrow> item_instance (loaded p3 ! n) \<noteq> None) \<and> switchable_item it'
           \<and> (item_instance it' = None \<longleftrightarrow> item_instance (loaded p3 ! n) = None)
           \<and> same_rotation p3 p4
           \<and> (conforming_item (loaded p3 ! n) \<and> \<not> item_running (loaded p3 ! n) \<longrightarrow>
                conforming_item it'
                \<and> window_frames p4 = (if item_instance (loaded p3 ! n) = None then window_frames p3
                                       else snd (requestAnimationFrame (window_frames p3)))
                \<and> handles_of it' = (if item_instance (loaded p3 ! n) = None then []
                                     else [Suc (rafSeq (window_frames p3))]))"
    by (elim exE) (rule that)
  then have p4: "call_lifecycle start n p3 = Returned p4"
    and l4: "loaded p4 = (loaded p3)[n := it']"
    and it': "item_running it' \<longleftrightarrow> item_instance (loaded p3 ! n) \<noteq> None" "switchable_item it'"
      "(item_instance it' = None) = (item_instance (loaded p3 ! n) = None)"
    and fr4: "conforming_item (loaded p3 ! n) \<and> \<not> item_running (loaded p3 ! n) \<longrightarrow>
                conforming_item it'
                \<and> window_frames p4 = (if item_instance (loaded p3 ! n) = None then window_frames p3
                                       else snd (requestAnimationFrame (window_frames p3)))
                \<and> handles_of it' = (if item_instance (loaded p3 ! n) = None then []
                                     else [Suc (rafSeq (window_frames p3))])"
    by blast+
  define q where "q = p4\<lparr>window_currentAnimation := (if item_instance it = None then None else Some n),
                         currentItem := Some n, currentIndex := i\<rparr>"
  have p4': "call_lifecycle start (nat i)
      (hideAll p1\<lparr>loaded := (loaded (hideAll p1))[nat i := it\<lparr>view_display := DisplayBlock\<rparr>]\<rparr>)
      = Returned p4"
    using p4 by (simp add: p3_def p2_def n_def)
  have idx': "js_index (loaded (hideAll p1)) i = Some it"
    using idx by (simp add: p2_def)
  have res: "showIndex i p = Returned q"
    using p1 idx' p4' by (simp add: showIndex_def Let_def q_def n_def)
  have ik4: "instances_kept p3 p4"
    using l4 _ it'(3) by (rule instances_kept_update) (simp add: len3 n)
  have ikq: "instances_kept p q"
    using instances_kept_trans [OF ik1 instances_kept_trans [OF ik3 ik4]]
    by (simp add: instances_kept_def q_def)
  have lenq: "length (loaded q) = length (loaded p1)"
    by (simp add: q_def l4 len3)
  have runq: "item_running (loaded q ! j) \<longleftrightarrow> j = n \<and> item_instance (loaded q ! n) \<noteq> None"
    if "j < length (loaded q)" for j
  proof (cases "j = n")
    case True
    with that lenq n len3 it'(1,3) show ?thesis
      by (simp add: q_def l4)
  next
    case False
    with that lenq nth3 [of j] nr1 [of j] show ?thesis
      by (simp add: q_def l4)
  qed
  have "current_shown q"
    unfolding current_shown_def only_current_runs_def
  proof (intro conjI allI impI)
    show "switchable_modules (loaded q)"
      using tm3 it'(2) by (simp add: q_def l4 switchable_modules_update)
    show "currentItem q = Some j" if "j < length (loaded q)" "item_running (loaded q ! j)" for j
      using that runq [of j] by (simp add: q_def)
    show "k < length (loaded q)" if "currentItem q = Some k" for k
      using that n lenq by (simp add: q_def)
    show "0 \<le> currentIndex q" "currentIndex q < int (length (loaded q))"
      using i lenq len1 by (simp_all add: q_def)
    show "currentItem q = Some (nat (currentIndex q))"
      by (simp add: q_def n_def)
    show "item_running (loaded q ! nat (currentIndex q))"
      if "item_instance (loaded q ! nat (currentIndex q)) \<noteq> None"
    proof -
      have "nat (currentIndex q) = n" by (simp add: q_def n_def)
      with that runq [of n] n lenq show ?thesis by simp
    qed
  qed
  moreover have "currentIndex q = i"
    by (simp add: q_def)
  moreover have "frames_owned base q" if fo: "frames_owned base p"
  proof -
    from fo1 [OF fo] have cm1: "conforming_modules (loaded p1)"
      and b1: "rafPending (window_frames p1) = base"
      and w1: "wellformed_frames (window_frames p1)"
      by blast+
    from b1 have b: "rafPending (window_frames p3) = base"
      by (simp only: fr3)
    from w1 have "distinct (rafPending (window_frames p1))"
      "\<forall>h \<in> set (rafPending (window_frames p1)). h \<le> rafSeq (window_frames p1)"
      unfolding wellformed_frames_def by blast+
    then have wf: "distinct base" "\<forall>h \<in> set base. h \<le> rafSeq (window_frames p3)"
      unfolding b1 fr3 by blast+
    from cm3 [OF cm1] n3 have "conforming_item (loaded p3 ! n)"
      by (simp add: conforming_modules_def)
    with fr4 nr3 have ci: "conforming_item it'"
      and fr4': "window_frames p4 = (if item_instance (loaded p3 ! n) = None then window_frames p3
                                       else snd (requestAnimationFrame (window_frames p3)))"
      and h4: "handles_of it' = (if item_instance (loaded p3 ! n) = None then []
                                     else [Suc (rafSeq (window_frames p3))])"
      by blast+
    have cmq: "conforming_modules (loaded q)"
      using cm3 [OF cm1] ci by (simp add: q_def l4 conforming_modules_update)
    have nq: "n < length (loaded q)" using n lenq by simp
    have "held_handles (loaded q) = handles_of (loaded q ! n)"
      using nq runq by (intro held_handles_single) auto
    also have "loaded q ! n = it'"
      using n len3 by (simp add: q_def l4)
    finally have held: "held_handles (loaded q) = handles_of it'" .
    have frq: "window_frames q = window_frames p4"
      by (simp add: q_def)
    show ?thesis
    proof (cases "item_instance (loaded p3 ! n) = None")
      case True
      with held h4 fr4' frq b wf cmq show ?thesis
        by (simp add: frames_owned_def wellformed_frames_def)
    next
      case False
      have "Suc (rafSeq (window_frames p3)) \<notin> set base"
        using wf(2) by auto
      with False held h4 fr4' frq b wf cmq show ?thesis
        by (auto simp: frames_owned_def wellformed_frames_def requestAnimationFrame_def)
    qed
  qed
  ultimately show ?thesis
    using res ikq by blast
qed

lemma same_modules_frames_owned:
  "same_modules p q \<Longrightarrow> frames_owned base p \<Longrightarrow> frames_owned base q"
  by (simp add: same_modules_def frames_owned_def)

lemma same_modules_current_shown:
  "same_modules p q \<Longrightarrow> current_shown p \<Longrightarrow> current_shown q"
  by (auto simp: same_modules_def current_shown_def only_current_runs_def)

lemma same_modules_instances_kept:
  "same_modules p q \<Longrightarrow> instances_kept p q"
  by (simp add: same_modules_def instances_kept_def)

lemma same_modules_clear_schedule:
  "same_modules p (clear_if_set p)" "same_modules p (schedule d p)"
  "same_modules p (schedule d (clear_if_set p))"
  by (simp_all add: same_modules_def clear_if_set_def schedule_def split_def)

lemma js_rem_in_range:
  "0 \<le> a \<Longrightarrow> 0 < n \<Longrightarrow> 0 \<le> js_rem a n \<and> js_rem a n < n"
  by (simp add: js_rem_def)

lemma current_shown_only_current_runs:
  "current_shown p \<Longrightarrow> only_current_runs p"
  by (simp add: current_shown_def)

lemma rotateNext_shows:
  assumes cs: "current_shown p" and step: "- int (length (loaded p)) \<le> step"
  shows "\<exists>q. rotateNext step p = Returned q \<and> current_shown q \<and> instances_kept p q
           \<and> currentIndex q = js_rem (currentIndex p + step + int (length (loaded p)))
                                  (int (length (loaded p)))
           \<and> (frames_owned base p \<longrightarrow> frames_owned base q)"
proof -
  let ?n = "int (length (loaded p))"
  let ?next = "js_rem (currentIndex p + step + ?n) ?n"
  from cs have ci: "0 \<le> currentIndex p" "currentIndex p < ?n"
    by (simp_all add: current_shown_def)
  with step have "0 \<le> currentIndex p + step + ?n" "0 < ?n"
    by auto
  then have "0 \<le> ?next \<and> ?next < ?n"
    by (rule js_rem_in_range)
  with showIndex_shows [OF current_shown_only_current_runs [OF cs], of ?next base]
  obtain q where q: "showIndex ?next p = Returned q" "current_shown q" "currentIndex q = ?next"
    "instances_kept p q" and fo: "frames_owned base p \<Longrightarrow> frames_owned base q"
    by auto
  let ?d = "item_duration (js_index (loaded q) ?next)"
  let ?r = "if \<not> paused (clear_if_set q) then schedule ?d (clear_if_set q) else clear_if_set q"
  have r: "rotateNext step p = Returned ?r"
    using q(1) by (simp add: rotateNext_def Let_def)
  have sm: "same_modules q ?r"
    using same_modules_clear_schedule [of q] by simp
  from sm q(2) have "current_shown ?r"
    by (rule same_modules_current_shown)
  moreover from q(4) same_modules_instances_kept [OF sm] have "instances_kept p ?r"
    by (rule instances_kept_trans)
  moreover from sm q(3) have "currentIndex ?r = ?next"
    by (simp add: same_modules_def)
  moreover have "frames_owned base p \<longrightarrow> frames_owned base ?r"
    using fo same_modules_frames_owned [OF sm] by blast
  ultimately show ?thesis
    using r by blast
qed

lemma current_shown_paused_update [simp]:
  "current_shown (p\<lparr>paused := b\<rparr>) = current_shown p"
  by (simp add: current_shown_def only_current_runs_def)

lemma current_shown_timeouts_update [simp]:
  "current_shown (p\<lparr>window_timeouts := ts\<rparr>) = current_shown p"
  by (simp add: current_shown_def only_current_runs_def)

lemma frames_owned_updates [simp]:
  "frames_owned base (p\<lparr>paused := b\<rparr>) = frames_owned base p"
  "frames_owned base (p\<lparr>window_timeouts := ts\<rparr>) = frames_owned base p"
  by (simp_all add: frames_owned_def)

lemma instances_kept_updates [simp]:
  "instances_kept (p\<lparr>paused := b\<rparr>) q = instances_kept p q"
  "instances_kept (p\<lparr>window_timeouts := ts\<rparr>) q = instances_kept p q"
  by (simp_all add: instances_kept_def)

lemma pause_click_same_modules:
  "same_modules p (pause_click p)"
  by (simp add: pause_click_def Let_def same_modules_def clear_if_set_def schedule_def split_def)

lemma handle_event_shows:
  assumes cs: "current_shown p" and v: "valid_event (length (loaded p)) ev"
  shows "current_shown (handle_event ev p) \<and> instances_kept p (handle_event ev p)
         \<and> (frames_owned base p \<longrightarrow> frames_owned base (handle_event ev p))"
proof -
  from cs have len: "0 < length (loaded p)"
    by (auto simp: current_shown_def)
  have rotate: "current_shown (state_of (rotateNext step p')) \<and> instances_kept p (state_of (rotateNext step p'))
         \<and> (frames_owned base p \<longrightarrow> frames_owned base (state_of (rotateNext step p')))"
    if "current_shown p'" "- int (length (loaded p')) \<le> step" "instances_kept p p'"
      "frames_owned base p \<Longrightarrow> frames_owned base p'" for step p'
  proof -
    from rotateNext_shows [OF that(1,2), of base]
    obtain q where q: "rotateNext step p' = Returned q" "current_shown q" "instances_kept p' q"
      and fo: "frames_owned base p' \<Longrightarrow> frames_owned base q"
      by blast
    from that(3) q(3) have "instances_kept p q" by (rule instances_kept_trans)
    with q(1,2) fo that(4) show ?thesis by auto
  qed
  show ?thesis
  proof (cases ev)
    case PrevClick
    from cs have "current_shown (p\<lparr>paused := False\<rparr>)" by simp
    from rotate [OF this, of "- 1"] len PrevClick show ?thesis
      by (simp add: prev_click_def instances_kept_def)
  next
    case NextClick
    from cs have "current_shown (p\<lparr>paused := False\<rparr>)" by simp
    from rotate [OF this, of 1] NextClick show ?thesis
      by (simp add: next_click_def instances_kept_def)
  next
    case (RotateNextCall step)
    with v have "- int (length (loaded p)) \<le> step" by simp
    from rotate [OF cs this] RotateNextCall show ?thesis
      by simp
  next
    case PauseClick
    with cs pause_click_same_modules [of p] show ?thesis
      by (simp add: same_modules_current_shown same_modules_instances_kept
          same_modules_frames_owned)
  next
    case (TimeoutFires t)
    show ?thesis
    proof (cases "t \<in> set (map fst (pending (window_timeouts p)))")
      case False
      with cs TimeoutFires show ?thesis by (simp add: timeout_fires_def)
    next
      case True
      from cs have "current_shown (p\<lparr>window_timeouts := clearTimeout (Some t) (window_timeouts p)\<rparr>)"
        by simp
      from rotate [OF this, of 1] True TimeoutFires show ?thesis
        by (simp add: timeout_fires_def instances_kept_def)
    qed
  next
    case (ShowIndexCall i)
    with v have "0 \<le> i" "i < int (length (loaded p))" by simp_all
    from showIndex_shows [OF current_shown_only_current_runs [OF cs] this, of base] ShowIndexCall
    show ?thesis by auto
  qed
qed

lemma run_events_shows:
  assumes "current_shown p" and "\<forall>ev \<in> set es. valid_event (length (loaded p)) ev"
  shows "current_shown (run_events es p) \<and> instances_kept p (run_events es p)
         \<and> (frames_owned base p \<longrightarrow> frames_owned base (run_events es p))"
  using assms
proof (induction es arbitrary: p)
  case Nil
  then show ?case by (simp add: run_events_def)
next
  case (Cons ev es)
  from Cons.prems have step: "current_shown (handle_event ev p)" "instances_kept p (handle_event ev p)"
    "frames_owned base p \<longrightarrow> frames_owned base (handle_event ev p)"
    using handle_event_shows [of p ev base] by simp_all
  from step(2) have len: "length (loaded (handle_event ev p)) = length (loaded p)"
    by (rule instances_kept_length)
  with Cons.prems have "\<forall>e \<in> set es. valid_event (length (loaded (handle_event ev p))) e"
    by simp
  with Cons.IH [OF step(1)] have "current_shown (run_events es (handle_event ev p))"
    "instances_kept (handle_event ev p) (run_events es (handle_event ev p))"
    "frames_owned base (handle_event ev p)
       \<longrightarrow> frames_owned base (run_events es (handle_event ev p))"
    by simp_all
  with step(2,3) show ?case
    by (auto simp: run_events_def intro: instances_kept_trans)
qed

lemma startup_shows:
  assumes "entries \<noteq> []" and "switchable_modules entries" and "\<forall>it \<in> set entries. \<not> item_running it"
  shows "\<exists>q. startup entries f = Returned q \<and> current_shown q \<and> currentIndex q = 0
           \<and> instances_kept (init_page entries f) q
           \<and> (conforming_modules entries \<and> wellformed_frames f \<longrightarrow> frames_owned (rafPending f) q)"
proof -
  have "only_current_runs (init_page entries f)"
    using assms by (simp add: only_current_runs_def init_page_def)
  moreover have "(0::int) \<le> 0" "0 < int (length (loaded (init_page entries f)))"
    using assms(1) by (simp_all add: init_page_def)
  ultimately obtain q where q: "showIndex 0 (init_page entries f) = Returned q" "current_shown q"
    "currentIndex q = 0" "instances_kept (init_page entries f) q"
    and fo: "frames_owned (rafPending f) (init_page entries f) \<Longrightarrow> frames_owned (rafPending f) q"
    using showIndex_shows [of "init_page entries f" 0 "rafPending f"] by auto
  have "held_handles entries = []"
    using assms(3) by (intro held_handles_none) simp
  then have fo0: "conforming_modules entries \<and> wellformed_frames f \<Longrightarrow>
      frames_owned (rafPending f) (init_page entries f)"
    by (simp add: frames_owned_def init_page_def)
  let ?d = "item_duration (case currentItem q of None \<Rightarrow> None | Some k \<Rightarrow> js_index (loaded q) (int k))"
  have "startup entries f = Returned (schedule ?d q)"
    using q(1) by (simp add: startup_def)
  moreover from same_modules_clear_schedule(2) [of q ?d] q(2) have "current_shown (schedule ?d q)"
    by (rule same_modules_current_shown)
  moreover from q(3) same_modules_clear_schedule(2) [of q ?d] have "currentIndex (schedule ?d q) = 0"
    by (simp add: same_modules_def)
  moreover from q(4) same_modules_instances_kept [OF same_modules_clear_schedule(2) [of q ?d]]
  have "instances_kept (init_page entries f) (schedule ?d q)"
    by (rule instances_kept_trans)
  moreover have "conforming_modules entries \<and> wellformed_frames f
      \<longrightarrow> frames_owned (rafPending f) (schedule ?d q)"
    using fo fo0 same_modules_frames_owned [OF same_modules_clear_schedule(2) [of q ?d]]
    by blast
  ultimately show ?thesis by blast
qed

lemma filter_single:
  assumes "k < length xs" and "\<forall>j < length xs. P (xs ! j) \<longleftrightarrow> (j = k \<and> b)"
  shows "length (filter P xs) = (if b then 1 else 0)"
proof -
  have "{i. i < length xs \<and> P (xs ! i)} = (if b then {k} else {})"
    using assms by auto
  then show ?thesis
    by (simp add: length_filter_conv_card)
qed

lemma item_running_instance:
  "item_running it \<Longrightarrow> item_instance it \<noteq> None"
  by (simp add: item_running_def split: option.splits)

lemma current_shown_count:
  assumes "current_shown p"
  shows "running_count p = (if item_instance (loaded p ! nat (currentIndex p)) = None then 0 else 1)"
proof -
  let ?k = "nat (currentIndex p)"
  from assms have k: "?k < length (loaded p)"
    by (auto simp: current_shown_def)
  have "\<forall>j < length (loaded p). item_running (loaded p ! j)
          \<longleftrightarrow> (j = ?k \<and> item_instance (loaded p ! ?k) \<noteq> None)"
    using assms by (auto simp: current_shown_def only_current_runs_def dest: item_running_instance)
  from filter_single [OF k this] show ?thesis
    by (simp add: running_count_def)
qed

lemma reachable_current_shown:
  assumes "entries \<noteq> []" and "switchable_modules entries"
    and "\<forall>it \<in> set entries. \<not> item_running it"
    and "\<forall>ev \<in> set es. valid_event (length entries) ev"
  shows "current_shown (run_events es (state_of (startup entries f)))
         \<and> instances_kept (init_page entries f) (run_events es (state_of (startup entries f)))
         \<and> (conforming_modules entries \<and> wellformed_frames f \<longrightarrow>
              frames_owned (rafPending f) (run_events es (state_of (startup entries f))))"
proof -
  from startup_shows [OF assms(1-3), of f]
  obtain q where q: "startup entries f = Returned q" "current_shown q"
    "instances_kept (init_page entries f) q"
    and fo: "conforming_modules entries \<and> wellformed_frames f \<longrightarrow> frames_owned (rafPending f) q"
    by blast
  from q(3) have "length (loaded q) = length entries"
    using instances_kept_length [of "init_page entries f" q] by (simp add: init_page_def)
  with assms(4) have "\<forall>ev \<in> set es. valid_event (length (loaded q)) ev"
    by simp
  from run_events_shows [OF q(2) this, of "rafPending f"] q(3) q(1) fo show ?thesis
    by (auto intro: instances_kept_trans)
qed

lemmas page_defs = run_events_def startup_def init_page_def showIndex_def call_lifecycle_def
  store_instance_def hideAll_def js_index_def js_rem_def item_duration_def schedule_def
  setTimeout_def clearTimeout_def clear_if_set_def rotateNext_def prev_click_def next_click_def
  pause_click_def timeout_fires_def truthy_def DEFAULT_DURATION_def
  TemplateAnimation_def TemplateAnimation_start_def TemplateAnimation_stop_def
  requestAnimationFrame_def cancelAnimationFrame_def resize_def Let_def
  example_entries_def example_frames_def

lemma example_entries_facts:
  "example_entries \<noteq> []" "switchable_modules example_entries"
  "\<forall>it \<in> set example_entries. \<not> item_running it" "length example_entries = 2"
  "item_instance (example_entries ! 0) \<noteq> None" "item_instance (example_entries ! 1) = None"
  by (simp_all add: example_entries_def switchable_modules_def switchable_item_def
      item_running_def TemplateAnimation_def truthy_def
      contract_holds_and_releases [OF TemplateAnimation_conforms])

lemma mixed_entries_facts:
  "mixed_entries \<noteq> []" "switchable_modules mixed_entries"
  "\<forall>it \<in> set mixed_entries. \<not> item_running it" "length mixed_entries = 3"
  "conforming_modules mixed_entries"
proof -
  show c: "conforming_modules mixed_entries"
    by (simp add: mixed_entries_def conforming_modules_def conforming_item_def
        TemplateAnimation_def TemplateAnimation_v1_def
        TemplateAnimation_conforms TemplateAnimation_v1_conforms)
  then show "switchable_modules mixed_entries"
    by (rule conforming_modules_switchable)
  show "mixed_entries \<noteq> []" "\<forall>it \<in> set mixed_entries. \<not> item_running it"
    "length mixed_entries = 3"
    by (simp_all add: mixed_entries_def item_running_def TemplateAnimation_def
        TemplateAnimation_v1_def truthy_def)
qed

lemma length_handles_of:
  "length (handles_of it) = (if item_running it then 1 else 0)"
  by (simp add: handles_of_def item_running_def truthy_def split: option.splits)

text \<open>
  C2, as the code has it. With at least one entry loaded and modules whose \<open>start\<close>
  returns with a frame handle held and whose \<open>stop\<close> returns with none held (whatever
  else the two do), none of them running before \<open>init\<close>: after \<open>init\<close> and any sequence
  of previous, next and pause clicks, timeouts, and calls of \<open>rotateNext\<close> and \<open>showIndex\<close>
  that stay inside \<open>loaded\<close>, at most one module is Running, a Running module is the
  current entry's, and exactly one is Running if the current entry has an instance while
  none is if its instance is \<open>null\<close>. The browser agrees when the modules meet the
  lifecycle contract: if its pending callbacks were well formed when \<open>init\<close> ran, they
  are now those of that moment followed by the one callback of the current module, or by
  none when the current entry has no instance.
\<close>

theorem at_most_current_running:
  assumes "entries \<noteq> []" and "switchable_modules entries"
    and "\<forall>it \<in> set entries. \<not> item_running it"
    and "\<forall>ev \<in> set es. valid_event (length entries) ev"
    and "p = run_events es (state_of (startup entries f))"
  shows "running_count p \<le> 1
         \<and> running_count p = (if item_instance (entries ! nat (currentIndex p)) = None then 0 else 1)
         \<and> 0 \<le> currentIndex p \<and> currentIndex p < int (length entries)
         \<and> (\<forall>j < length (loaded p). item_running (loaded p ! j) \<longrightarrow> j = nat (currentIndex p))
         \<and> (conforming_modules entries \<and> wellformed_frames f \<longrightarrow>
              rafPending (window_frames p)
                = rafPending f @ handles_of (loaded p ! nat (currentIndex p))
              \<and> length (rafPending (window_frames p)) = length (rafPending f) + running_count p)"
proof -
  from reachable_current_shown [OF assms(1-4), of f] assms(5)
  have cs: "current_shown p" and ik: "instances_kept (init_page entries f) p"
    and fo: "conforming_modules entries \<and> wellformed_frames f \<longrightarrow> frames_owned (rafPending f) p"
    by simp_all
  from ik have len: "length (loaded p) = length entries"
    using instances_kept_length [of "init_page entries f" p] by (simp add: init_page_def)
  from cs have ci: "0 \<le> currentIndex p" "currentIndex p < int (length (loaded p))"
    by (simp_all add: current_shown_def)
  with len have "nat (currentIndex p) < length (loaded (init_page entries f))"
    by (simp add: init_page_def)
  from instances_kept_nth [OF ik this]
  have same: "(item_instance (loaded p ! nat (currentIndex p)) = None)
               = (item_instance (entries ! nat (currentIndex p)) = None)"
    by (simp add: init_page_def)
  have count: "running_count p = (if item_instance (entries ! nat (currentIndex p)) = None then 0 else 1)"
    using current_shown_count [OF cs] same by simp
  have only: "\<forall>j < length (loaded p). item_running (loaded p ! j) \<longrightarrow> j = nat (currentIndex p)"
    using cs by (auto simp: current_shown_def only_current_runs_def)
  have k: "nat (currentIndex p) < length (loaded p)" using ci by simp
  have held: "held_handles (loaded p) = handles_of (loaded p ! nat (currentIndex p))"
    using k only by (intro held_handles_single) auto
  have runs: "item_running (loaded p ! nat (currentIndex p))
                \<longleftrightarrow> item_instance (loaded p ! nat (currentIndex p)) \<noteq> None"
    using cs by (auto simp: current_shown_def dest: item_running_instance)
  have frames: "rafPending (window_frames p)
                = rafPending f @ handles_of (loaded p ! nat (currentIndex p))
              \<and> length (rafPending (window_frames p)) = length (rafPending f) + running_count p"
    if "conforming_modules entries \<and> wellformed_frames f"
  proof -
    from fo that have "rafPending (window_frames p) = rafPending f @ held_handles (loaded p)"
      by (simp add: frames_owned_def)
    with held have own: "rafPending (window_frames p)
        = rafPending f @ handles_of (loaded p ! nat (currentIndex p))"
      by (simp only:)
    have "length (handles_of (loaded p ! nat (currentIndex p))) = running_count p"
      using runs same count by (simp add: length_handles_of)
    with own show ?thesis by simp
  qed
  have one: "running_count p \<le> 1"
    using count by simp
  from ci len have ci': "0 \<le> currentIndex p" "currentIndex p < int (length entries)"
    by simp_all
  from one count ci' only frames show ?thesis
    by blast
qed

theorem at_most_current_running_witness:
  "running_count (run_events [NextClick, PrevClick, ShowIndexCall 1]
      (state_of (startup mixed_entries example_frames))) = 1
   \<and> currentIndex (run_events [NextClick, PrevClick, ShowIndexCall 1]
      (state_of (startup mixed_entries example_frames))) = 1
   \<and> rafPending (window_frames (run_events [NextClick, PrevClick, ShowIndexCall 1]
      (state_of (startup mixed_entries example_frames)))) = [1, 5]"
proof -
  let ?p = "run_events [NextClick, PrevClick, ShowIndexCall 1]
      (state_of (startup mixed_entries example_frames))"
  have v: "\<forall>ev \<in> set [NextClick, PrevClick, ShowIndexCall 1]. valid_event (length mixed_entries) ev"
    by (simp add: mixed_entries_facts)
  have wf: "wellformed_frames example_frames"
    by (simp add: wellformed_frames_def example_frames_def)
  have ci: "currentIndex ?p = 1"
    by (simp add: page_defs mixed_entries_def TemplateAnimation_v1_def
        TemplateAnimation_v1_start_def TemplateAnimation_v1_drawFrame_def)
  have h: "handles_of (loaded ?p ! 1) = [5]"
    by (simp add: page_defs mixed_entries_def TemplateAnimation_v1_def
        TemplateAnimation_v1_start_def TemplateAnimation_v1_drawFrame_def handles_of_def)
  have inst: "item_instance (mixed_entries ! nat 1) \<noteq> None"
    by (simp add: mixed_entries_def)
  note cm = mixed_entries_facts(5)
  from at_most_current_running [OF mixed_entries_facts(1-3) v refl, of example_frames]
  have "running_count ?p = (if item_instance (mixed_entries ! nat (currentIndex ?p)) = None then 0 else 1)"
    and "conforming_modules mixed_entries \<and> wellformed_frames example_frames \<longrightarrow>
           rafPending (window_frames ?p)
             = rafPending example_frames @ handles_of (loaded ?p ! nat (currentIndex ?p))
           \<and> length (rafPending (window_frames ?p))
               = length (rafPending example_frames) + running_count ?p"
    by blast+
  with ci wf h inst cm show ?thesis
    by (simp add: example_frames_def)
qed

theorem not_always_one_running_counterexample:
  "running_count (run_events [NextClick] (state_of (startup example_entries example_frames))) = 0
   \<and> length (loaded (run_events [NextClick] (state_of (startup example_entries example_frames)))) = 2"
  by (simp add: page_defs running_count_def item_running_def)

section \<open>Properties of the rotation: the timer armed on resume\<close>

lemma durations_kept_refl [simp]: "durations_kept p p"
  by (simp add: durations_kept_def)

lemma durations_kept_trans:
  "durations_kept p q \<Longrightarrow> durations_kept q r \<Longrightarrow> durations_kept p r"
  by (simp add: durations_kept_def)

lemma map_config_duration_update:
  "config_duration y = config_duration (xs ! k) \<Longrightarrow>
   map config_duration (xs[k := y]) = map config_duration xs"
  by (cases "k < length xs") (auto simp: list_eq_iff_nth_eq nth_list_update)

lemma call_lifecycle_durations:
  "durations_kept p (state_of (call_lifecycle m k p))"
  by (simp add: durations_kept_def call_lifecycle_def store_instance_def
      map_config_duration_update split: option.splits outcome.splits)

lemma showIndex_durations:
  "durations_kept p (state_of (showIndex i p))"
proof -
  define r where "r = (case currentItem p of None \<Rightarrow> Returned p | Some k \<Rightarrow> call_lifecycle stop k p)"
  have d1: "durations_kept p (state_of r)"
    using call_lifecycle_durations [of p stop] by (simp add: r_def split: option.splits)
  show ?thesis
  proof (cases r)
    case (Thrown e p1)
    with d1 show ?thesis
      by (simp add: showIndex_def r_def [symmetric])
  next
    case (Returned p1)
    with d1 have d: "durations_kept p p1" by simp
    show ?thesis
    proof (cases "js_index (loaded (hideAll p1)) i")
      case None
      with Returned d show ?thesis
        by (simp add: showIndex_def r_def [symmetric] Let_def hideAll_def durations_kept_def
            comp_def)
    next
      case (Some it)
      define p3 where "p3 = hideAll p1\<lparr>loaded := (loaded (hideAll p1))[nat i := it\<lparr>view_display := DisplayBlock\<rparr>]\<rparr>"
      from Some have "config_duration (it\<lparr>view_display := DisplayBlock\<rparr>)
          = config_duration (loaded (hideAll p1) ! nat i)"
        by (auto simp: js_index_def split: if_splits)
      then have "map config_duration (loaded p3) = map config_duration (loaded (hideAll p1))"
        by (simp add: p3_def map_config_duration_update)
      with d have d3: "durations_kept p p3"
        by (simp add: durations_kept_def hideAll_def comp_def)
      from durations_kept_trans [OF d3 call_lifecycle_durations [of p3 start "nat i"]]
      have "durations_kept p (state_of (call_lifecycle start (nat i) p3))" .
      with Returned Some show ?thesis
        by (cases "call_lifecycle start (nat i) p3")
          (simp_all add: showIndex_def r_def [symmetric] Let_def p3_def [symmetric]
            durations_kept_def)
    qed
  qed
qed

lemma durations_kept_controls:
  "durations_kept p (clear_if_set p)" "durations_kept p (schedule d p)"
  "durations_kept p (p\<lparr>paused := b\<rparr>)" "durations_kept p (p\<lparr>window_timeouts := ts\<rparr>)"
  by (simp_all add: durations_kept_def clear_if_set_def schedule_def split_def)

lemma rotateNext_durations:
  "durations_kept p (state_of (rotateNext step p))"
proof -
  let ?next = "js_rem (currentIndex p + step + int (length (loaded p))) (int (length (loaded p)))"
  from showIndex_durations [of p ?next] show ?thesis
    by (cases "showIndex ?next p")
      (simp_all add: rotateNext_def Let_def durations_kept_def clear_if_set_def schedule_def
        split_def)
qed

lemma handle_event_durations:
  "durations_kept p (handle_event ev p)"
proof (cases ev)
  case PrevClick
  with rotateNext_durations [of "p\<lparr>paused := False\<rparr>" "- 1"] show ?thesis
    by (simp add: prev_click_def durations_kept_def)
next
  case NextClick
  with rotateNext_durations [of "p\<lparr>paused := False\<rparr>" 1] show ?thesis
    by (simp add: next_click_def durations_kept_def)
next
  case PauseClick
  then show ?thesis
    by (simp add: pause_click_def Let_def durations_kept_def clear_if_set_def schedule_def
        split_def)
next
  case (TimeoutFires t)
  with rotateNext_durations [of "p\<lparr>window_timeouts := clearTimeout (Some t) (window_timeouts p)\<rparr>" 1]
  show ?thesis
    by (simp add: timeout_fires_def durations_kept_def)
next
  case (RotateNextCall step)
  with rotateNext_durations [of p step] show ?thesis by simp
next
  case (ShowIndexCall i)
  with showIndex_durations [of p i] show ?thesis by simp
qed

lemma run_events_durations:
  "durations_kept p (run_events es p)"
proof (induction es arbitrary: p)
  case Nil
  show ?case by (simp add: run_events_def)
next
  case (Cons ev es)
  from durations_kept_trans [OF handle_event_durations [of p ev] Cons [of "handle_event ev p"]]
  show ?case by (simp add: run_events_def)
qed

lemma startup_durations:
  "map config_duration (loaded (state_of (startup entries f))) = map config_duration entries"
  using showIndex_durations [of "init_page entries f" 0]
  by (cases "showIndex 0 (init_page entries f)")
    (simp_all add: startup_def durations_kept_def init_page_def schedule_def split_def)

lemma item_duration_same:
  assumes "map config_duration xs = map config_duration ys"
  shows "item_duration (js_index xs k) = item_duration (js_index ys k)"
proof -
  from assms have len: "length xs = length ys"
    by (rule map_eq_imp_length_eq)
  have "config_duration (xs ! j) = config_duration (ys ! j)" if "j < length xs" for j
    using that assms len by (metis nth_map)
  then have "0 \<le> k \<Longrightarrow> k < int (length ys) \<Longrightarrow>
      config_duration (xs ! nat k) = config_duration (ys ! nat k)"
    using len by simp
  with len show ?thesis
    by (simp add: js_index_def item_duration_def)
qed

text \<open>
  C4, as the code has it. When a click on pause resumes rotation, exactly one timeout is
  pending afterwards, and its delay is the configured duration (8 seconds when the
  manifest gives none, or 0) of the entry at \<open>(currentIndex + 1) % loaded.length\<close>, the
  entry that comes next, in milliseconds.
\<close>

theorem resume_timer_next_duration:
  assumes "p = run_events es (state_of (startup entries f))" and "paused p"
  shows "\<not> paused (pause_click p)
         \<and> pending (window_timeouts (pause_click p)) =
             [(Suc (timerSeq (window_timeouts p)),
               item_duration (js_index entries (js_rem (currentIndex p + 1) (int (length entries))))
                 * 1000)]
         \<and> rotationTimer (pause_click p) = Some (Suc (timerSeq (window_timeouts p)))"
proof -
  have inv: "timers_tracked p"
    unfolding assms(1) by (rule run_events_timers_tracked) (rule startup_timers_tracked)
  with assms(2) have empty: "pending (window_timeouts p) = []"
    by (simp add: timers_tracked_def)
  have dk: "map config_duration (loaded p) = map config_duration entries"
    using run_events_durations [of "state_of (startup entries f)" es] startup_durations [of entries f]
    by (simp add: assms(1) durations_kept_def)
  then have len: "length (loaded p) = length entries"
    by (rule map_eq_imp_length_eq)
  from dk have d: "item_duration (js_index (loaded p) k) = item_duration (js_index entries k)" for k
    by (rule item_duration_same)
  from assms(2) empty show ?thesis
    by (simp add: pause_click_def Let_def clear_if_set_def schedule_def setTimeout_def
        clearTimeout_def d len split: option.splits)
qed

theorem resume_timer_next_duration_witness:
  "pending (window_timeouts (pause_click
      (run_events [PauseClick] (state_of (startup example_entries example_frames))))) = [(2, 3000)]"
proof -
  let ?p = "run_events [PauseClick] (state_of (startup example_entries example_frames))"
  have facts: "paused ?p" "currentIndex ?p = 0" "timerSeq (window_timeouts ?p) = 1"
    by (simp_all add: page_defs)
  from resume_timer_next_duration [OF refl facts(1)] facts(2,3) show ?thesis
    by (simp add: example_entries_def js_index_def js_rem_def item_duration_def)
qed

theorem resume_timer_not_current_counterexample:
  "map snd (pending (window_timeouts
      (run_events [PauseClick, PauseClick] (state_of (startup example_entries example_frames)))))
     = [3000]
   \<and> currentIndex (run_events [PauseClick, PauseClick]
        (state_of (startup example_entries example_frames))) = 0
   \<and> item_duration (js_index example_entries 0) * 1000 = 5000"
  by (simp add: page_defs)

section \<open>Properties of the Frame Normalizer, the Distribution Loop and the source switch\<close>

lemmas audio_defs = live_manager_def enableLiveInput_def enableLiveInput_begin_def
  enableLiveInput_resume_def new_AudioManager_def no_capture_def setTestMode_def
  run_audio_def Let_def

lemma clamp_Num: "clamp (Num x) = Num (min 100 (max 0 x))"
  by (simp add: clamp_def Math_max_def Math_min_def min_def max_def)

lemma clamp_Infinity: "clamp Infinity = Num 100" "clamp MinusInfinity = Num 0"
  by (simp_all add: clamp_def Math_max_def Math_min_def)

lemma band_value_floor: "0 \<le> x \<Longrightarrow> x \<le> 100 \<Longrightarrow> band_value (Num (real_of_int \<lfloor>x\<rfloor>))"
proof -
  assume "0 \<le> x" "x \<le> 100"
  then have "0 \<le> \<lfloor>x\<rfloor>" "\<lfloor>x\<rfloor> \<le> 100"
    by (simp_all add: floor_le_iff le_floor_iff)
  then have "0 \<le> real_of_int \<lfloor>x\<rfloor>" "real_of_int \<lfloor>x\<rfloor> \<le> 100"
    by simp_all
  then show ?thesis by (simp add: band_value_def)
qed

lemma band_value_clamp:
  "v \<noteq> NaN \<Longrightarrow> band_value (Math_floor (clamp v))"
proof (cases v)
  case (Num x)
  then show ?thesis
    using band_value_floor [of "min 100 (max 0 x)"] by (simp add: clamp_Num Math_floor_def)
next
  case Infinity
  then show ?thesis by (simp add: clamp_Infinity Math_floor_def band_value_def)
next
  case MinusInfinity
  then show ?thesis by (simp add: clamp_Infinity Math_floor_def band_value_def)
next
  case NaN
  assume "v \<noteq> NaN"
  with NaN show ?thesis by simp
qed

lemma boost_double: "to_number (6 / 5) = Num (5404319552844595 / 2 ^ 52)"
proof -
  have a: "2 powr real_of_int 0 \<le> \<bar>6 / 5 :: real\<bar>" by simp
  have b: "\<bar>6 / 5 :: real\<bar> < 2 powr (real_of_int 0 + 1)" by simp
  have u: "(2::real) powr (- 52) = 1 / 2 ^ 52" by (simp add: powr_neg_numeral)
  have fl: "\<lfloor>(2 ^ 52 :: real) * 6 / 5\<rfloor> = 5404319552844595" by (simp add: floor_eq_iff)
  have r: "round_half_even (2 ^ 52 * 6 / 5) = 5404319552844595"
    unfolding round_half_even_def fl by simp
  have "nearest_double (6 / 5) = 5404319552844595 / 2 ^ 52"
    using nearest_double_eqI [OF a b] r by (simp add: u)
  then show ?thesis
    using MAX_VALUE_large by (simp add: to_number_def)
qed

lemma js_mul_not_NaN: "a \<noteq> NaN \<Longrightarrow> y \<noteq> 0 \<Longrightarrow> js_mul a (Num y) \<noteq> NaN"
  by (cases a) simp_all

lemma js_div_not_NaN: "y \<noteq> 0 \<Longrightarrow> js_div (Num x) (Num y) \<noteq> NaN"
  by simp

lemma read_bands_not_NaN:
  assumes "read_bands inp am = Some ((a, b, c), am')"
  shows "a \<noteq> NaN \<and> b \<noteq> NaN \<and> c \<noteq> NaN"
proof (cases "isTestMode am \<or> \<not> isLive am")
  case True
  with assms show ?thesis
    by (auto simp: read_bands_def split: prod.splits)
next
  case False
  have scaled: "js_mul (js_div (getAverageVolume array s e) (Num 255)) (Num 100) \<noteq> NaN"
    for array s e
  proof -
    obtain r where "getAverageVolume array s e = Num r"
      using getAverageVolume_finite [of array s e] by blast
    then show ?thesis
      by (simp add: js_mul_not_NaN)
  qed
  have boosted: "js_mul (js_mul (js_div (getAverageVolume array s e) (Num 255)) (Num 100))
                   (to_number (6 / 5)) \<noteq> NaN" for array s e
    using scaled [of array s e] by (simp add: boost_double js_mul_not_NaN)
  from assms False show ?thesis
    by (auto simp: read_bands_def Let_def scaled boosted split: option.splits)
qed

text \<open>
  C1. The band values a tick delivers are integers between 0 and 100, whatever the raw
  values are: each is the floor of the raw value clamped to \<open>[0, 100]\<close>, for every raw
  value that is a number (finite or infinite). This holds for the synthetic triple and for
  the scaled, boosted live averages, none of which is \<open>NaN\<close>, and a tick in synthetic
  mode, or in live mode with its analyser and array in place, always has a sample.
\<close>

theorem band_sample_in_bounds:
  "(\<forall>low mid high. band_sample inp am = Some (low, mid, high) \<longrightarrow>
       band_value low \<and> band_value mid \<and> band_value high)
   \<and> (\<forall>a b c. a \<noteq> NaN \<and> b \<noteq> NaN \<and> c \<noteq> NaN \<longrightarrow>
         normalize_bands (a, b, c) = (Math_floor (clamp a), Math_floor (clamp b), Math_floor (clamp c))
         \<and> band_value (Math_floor (clamp a)) \<and> band_value (Math_floor (clamp b))
         \<and> band_value (Math_floor (clamp c)))
   \<and> (\<forall>x y z. normalize_bands (Num x, Num y, Num z) =
         (Num (real_of_int \<lfloor>min 100 (max 0 x)\<rfloor>), Num (real_of_int \<lfloor>min 100 (max 0 y)\<rfloor>),
          Num (real_of_int \<lfloor>min 100 (max 0 z)\<rfloor>))
         \<and> 0 \<le> \<lfloor>min 100 (max 0 x)\<rfloor> \<and> \<lfloor>min 100 (max 0 x)\<rfloor> \<le> 100)
   \<and> (isTestMode am \<or> \<not> isLive am \<or> (analyser am \<noteq> None \<and> dataArray am \<noteq> None)
        \<longrightarrow> band_sample inp am \<noteq> None)"
proof (intro conjI allI impI)
  fix a b c :: number
  assume "a \<noteq> NaN \<and> b \<noteq> NaN \<and> c \<noteq> NaN"
  then show "band_value (Math_floor (clamp a))" "band_value (Math_floor (clamp b))"
    "band_value (Math_floor (clamp c))"
    by (simp_all add: band_value_clamp)
  show "normalize_bands (a, b, c) = (Math_floor (clamp a), Math_floor (clamp b), Math_floor (clamp c))"
    by (simp add: normalize_bands_def)
next
  fix x y z :: real
  show "normalize_bands (Num x, Num y, Num z) =
         (Num (real_of_int \<lfloor>min 100 (max 0 x)\<rfloor>), Num (real_of_int \<lfloor>min 100 (max 0 y)\<rfloor>),
          Num (real_of_int \<lfloor>min 100 (max 0 z)\<rfloor>))"
    by (simp add: normalize_bands_def clamp_Num Math_floor_def)
  show "0 \<le> \<lfloor>min 100 (max 0 x)\<rfloor>" "\<lfloor>min 100 (max 0 x)\<rfloor> \<le> 100"
    by (simp_all add: floor_le_iff le_floor_iff)
next
  fix low mid high
  assume "band_sample inp am = Some (low, mid, high)"
  then obtain bands am' where rb: "read_bands inp am = Some (bands, am')"
    and nb: "normalize_bands bands = (low, mid, high)"
    by (auto simp: band_sample_def)
  obtain a b c where bands: "bands = (a, b, c)" by (cases bands) auto
  from rb bands have "a \<noteq> NaN \<and> b \<noteq> NaN \<and> c \<noteq> NaN"
    using read_bands_not_NaN [of inp am a b c am'] by simp
  moreover from nb bands have "low = Math_floor (clamp a)" "mid = Math_floor (clamp b)"
    "high = Math_floor (clamp c)"
    by (simp_all add: normalize_bands_def)
  ultimately show "band_value low" "band_value mid" "band_value high"
    by (simp_all add: band_value_clamp)
next
  assume h: "isTestMode am \<or> \<not> isLive am \<or> (analyser am \<noteq> None \<and> dataArray am \<noteq> None)"
  show "band_sample inp am \<noteq> None"
  proof (cases "isTestMode am \<or> \<not> isLive am")
    case True
    then show ?thesis
      by (simp add: band_sample_def read_bands_def split_def)
  next
    case False
    with h obtain i d where "analyser am = Some i" "dataArray am = Some d"
      by auto
    with False show ?thesis
      by (simp add: band_sample_def read_bands_def Let_def)
  qed
qed

lemma getAverageVolume_silence:
  assumes "\<And>i v. array i = Some v \<Longrightarrow> v = 0"
  shows "getAverageVolume array s e = Num 0"
proof (cases "defined_entries array s e = []")
  case True
  then show ?thesis by (simp add: getAverageVolume_folds)
next
  case False
  let ?ds = "defined_entries array s e"
  have "v = 0" if "v \<in> set ?ds" for v
  proof -
    from that obtain i w where "array i = Some w" "v = unat w"
      by (auto simp: defined_entries_def List.map_filter_def)
    with assms [of i w] show ?thesis by simp
  qed
  then have "\<forall>v \<in> set ?ds. v = 0" by blast
  then have z: "sum_list ?ds = 0"
    by (simp add: sum_list_eq_0_iff)
  have v: "foldl (\<lambda>v x. js_add v (Num (real x))) (Num 0) ?ds = Num 0"
    using values_fold_exact [of 0 ?ds] z by simp
  have "0 < length ?ds" using False by simp
  then have "real (min (length ?ds) (2 ^ 53)) \<noteq> 0" by simp
  then have "js_div (Num 0) (Num (real (min (length ?ds) (2 ^ 53)))) = Num 0"
    by (simp only: js_div.simps if_False div_0 to_number_0)
  with False show ?thesis
    by (simp only: getAverageVolume_folds v if_False)
qed

lemma Uint8Array_at_zeros:
  "Uint8Array_at (replicate n 0) i = Some v \<Longrightarrow> v = 0"
  by (auto simp: Uint8Array_at_def js_index_def split: if_splits)

lemma to_number_50 [simp]: "to_number 50 = Num 50"
  using to_number_int [of 50] by simp

lemma silent_sample:
  assumes "\<not> isTestMode am" "isLive am" "analyser am = Some ins" "dataArray am = Some (replicate 1024 0)"
  shows "band_sample \<lparr>math_random = r, frequencyData = replicate 1024 0\<rparr> am
           = Some (Num 0, Num 0, Num 0)"
  using assms
  by (simp add: band_sample_def read_bands_def getByteFrequencyData_def normalize_bands_def
      clamp_Num Math_floor_def boost_double getAverageVolume_silence [OF Uint8Array_at_zeros])

lemma synthetic_sample:
  "band_sample example_tick new_AudioManager = Some (Num 50, Num 50, Num 50)"
  by (simp add: band_sample_def read_bands_def example_tick_def new_AudioManager_def
      normalize_bands_def clamp_Num Math_floor_def)

theorem band_sample_in_bounds_witness:
  "band_sample example_tick new_AudioManager = Some (Num 50, Num 50, Num 50)
   \<and> band_sample example_tick (fst live_manager) = Some (Num 0, Num 0, Num 0)
   \<and> normalize_bands (Num (- 3), Infinity, Num 99.5) = (Num 0, Num 100, Num 99)
   \<and> band_value (Num 0) \<and> band_value (Num 50) \<and> band_value (Num 100) \<and> band_value (Num 99)"
proof -
  have s2: "band_sample example_tick (fst live_manager) = Some (Num 0, Num 0, Num 0)"
    unfolding example_tick_def
    by (rule silent_sample) (simp_all add: audio_defs)
  have s3: "normalize_bands (Num (- 3), Infinity, Num 99.5) = (Num 0, Num 100, Num 99)"
    by (simp add: normalize_bands_def clamp_Num clamp_Infinity Math_floor_def)
  from band_sample_in_bounds [of example_tick new_AudioManager]
    band_sample_in_bounds [of example_tick "fst live_manager"] synthetic_sample s2 s3 show ?thesis
    by (simp add: band_value_def)
qed

lemma deliver_frames:
  "window_frames (state_of (deliver sample p)) = window_frames p"
  by (simp add: deliver_def store_instance_def split: option.splits outcome.splits prod.splits)

lemma loop_cases:
  "loop inp (am, p) =
     (case read_bands inp (am\<lparr>rafId := Some (Suc (rafSeq (window_frames p)))\<rparr>) of
        None \<Rightarrow> Thrown TypeError (am\<lparr>rafId := Some (Suc (rafSeq (window_frames p)))\<rparr>,
                                  p\<lparr>window_frames := snd (requestAnimationFrame (window_frames p))\<rparr>)
      | Some (bands, am2) \<Rightarrow>
          (case deliver (normalize_bands bands) (p\<lparr>window_frames := snd (requestAnimationFrame (window_frames p))\<rparr>) of
             Returned p2 \<Rightarrow> Returned (am2, p2)
           | Thrown e p2 \<Rightarrow> Thrown e (am2, p2)))"
  by (simp add: loop_def requestAnimationFrame_def Let_def
      split: option.splits prod.splits outcome.splits)

lemma read_bands_rafId:
  "read_bands inp am = Some (bands, am2) \<Longrightarrow> rafId am2 = rafId am"
  by (auto simp: read_bands_def Let_def split: if_splits option.splits prod.splits)

lemma read_bands_rafId_update:
  "read_bands inp (am\<lparr>rafId := h\<rparr>) = map_option (\<lambda>(bands, am2). (bands, am2\<lparr>rafId := h\<rparr>)) (read_bands inp am)"
  by (simp add: read_bands_def Let_def split: option.splits prod.splits)

text \<open>
  C10. A tick first registers the next animation frame and stores its handle in \<open>rafId\<close>,
  and only then reads the bands and calls \<open>updateFrequencies\<close>. So after every tick,
  whether it returns or throws, \<open>rafId\<close> is the new handle and that callback is pending:
  the next tick runs. An exception of \<open>updateFrequencies\<close> is not caught inside the tick: the
  tick ends with that exception, in a page where the next frame is already registered.
\<close>

theorem loop_registers_next_frame_first:
  "rafId (fst (state_of (loop inp (am, p)))) = Some (Suc (rafSeq (window_frames p)))
   \<and> Suc (rafSeq (window_frames p)) \<in> set (rafPending (window_frames (snd (state_of (loop inp (am, p))))))
   \<and> (\<forall>sample e p'.
         band_sample inp am = Some sample
         \<and> deliver sample (p\<lparr>window_frames := snd (requestAnimationFrame (window_frames p))\<rparr>)
             = Thrown e p'
         \<longrightarrow> thrown (loop inp (am, p)) = Some e \<and> snd (state_of (loop inp (am, p))) = p'
             \<and> Suc (rafSeq (window_frames p)) \<in> set (rafPending (window_frames p')))"
proof -
  let ?h = "Suc (rafSeq (window_frames p))"
  let ?am1 = "am\<lparr>rafId := Some ?h\<rparr>"
  let ?p1 = "p\<lparr>window_frames := snd (requestAnimationFrame (window_frames p))\<rparr>"
  have p1: "?h \<in> set (rafPending (window_frames ?p1))"
    by (simp add: requestAnimationFrame_def)
  have d: "window_frames (state_of (deliver s ?p1)) = window_frames ?p1" for s
    by (rule deliver_frames)
  have main: "rafId (fst (state_of (loop inp (am, p)))) = Some ?h
      \<and> ?h \<in> set (rafPending (window_frames (snd (state_of (loop inp (am, p))))))"
  proof (cases "read_bands inp ?am1")
    case None
    with p1 show ?thesis by (simp add: loop_cases)
  next
    case (Some r)
    obtain bands am2 where r: "r = (bands, am2)" by (cases r) auto
    from Some r have "rafId am2 = Some ?h"
      using read_bands_rafId [of inp ?am1 bands am2] by simp
    with Some r p1 d [of "normalize_bands bands"] show ?thesis
      by (cases "deliver (normalize_bands bands) ?p1") (simp_all add: loop_cases)
  qed
  have not_caught: "thrown (loop inp (am, p)) = Some e \<and> snd (state_of (loop inp (am, p))) = p'
      \<and> ?h \<in> set (rafPending (window_frames p'))"
    if "band_sample inp am = Some sample" "deliver sample ?p1 = Thrown e p'" for sample e p'
  proof -
    from that(1) obtain bands am2 where rb: "read_bands inp am = Some (bands, am2)"
      and s: "sample = normalize_bands bands"
      by (auto simp: band_sample_def)
    from rb have "read_bands inp ?am1 = Some (bands, am2\<lparr>rafId := Some ?h\<rparr>)"
      by (simp add: read_bands_rafId_update)
    with that(2) s have l: "loop inp (am, p) = Thrown e (am2\<lparr>rafId := Some ?h\<rparr>, p')"
      by (simp add: loop_cases)
    from d [of sample] that(2) p1 have "?h \<in> set (rafPending (window_frames p'))"
      by simp
    with l show ?thesis by simp
  qed
  from main not_caught show ?thesis
    by blast
qed

lemmas page_more_defs = faulty_entries_def unstartable_entries_def throwing_def throwing_update_def
  example_tick_def deliver_def loop_def read_bands_def normalize_bands_def clamp_Num Math_floor_def
  band_sample_def new_AudioManager_def

theorem loop_registers_next_frame_first_witness:
  "thrown (loop example_tick (new_AudioManager, state_of (startup faulty_entries example_frames)))
     = Some (ModuleError ''updateFrequencies'')
   \<and> rafId (fst (state_of (loop example_tick
        (new_AudioManager, state_of (startup faulty_entries example_frames))))) = Some 3
   \<and> 3 \<in> set (rafPending (window_frames (snd (state_of (loop example_tick
        (new_AudioManager, state_of (startup faulty_entries example_frames)))))))"
proof -
  let ?p = "state_of (startup faulty_entries example_frames)"
  have seq: "rafSeq (window_frames ?p) = 2"
    by (simp add: page_defs page_more_defs)
  have s: "band_sample example_tick new_AudioManager = Some (Num 50, Num 50, Num 50)"
    by (rule synthetic_sample)
  have "\<exists>p'. deliver (Num 50, Num 50, Num 50) (?p\<lparr>window_frames := snd (requestAnimationFrame (window_frames ?p))\<rparr>)
       = Thrown (ModuleError ''updateFrequencies'') p'"
    by (simp add: page_defs page_more_defs)
  then obtain p' where "deliver (Num 50, Num 50, Num 50) (?p\<lparr>window_frames := snd (requestAnimationFrame (window_frames ?p))\<rparr>)
       = Thrown (ModuleError ''updateFrequencies'') p'"
    by blast
  with loop_registers_next_frame_first [of example_tick new_AudioManager ?p] s seq
  show ?thesis
    by (simp add: numeral_3_eq_3)
qed

text \<open>
  C3, on the code. The call sites have no \<open>try\<close>: with a module whose \<open>updateFrequencies\<close>
  and \<open>stop\<close> throw, the tick ends with the exception of \<open>updateFrequencies\<close>, and the click
  on next ends with the exception of \<open>stop\<close>, before the transition (the page stays on
  entry 0); with a module whose \<open>start\<close> throws, \<open>init\<close> ends with that exception before
  the first timeout is scheduled. The entries stay in \<open>loaded\<close>.
\<close>

theorem module_exceptions_propagate:
  "thrown (loop example_tick (new_AudioManager, state_of (startup faulty_entries example_frames)))
     = Some (ModuleError ''updateFrequencies'')
   \<and> thrown (next_click (state_of (startup faulty_entries example_frames)))
     = Some (ModuleError ''stop'')
   \<and> currentIndex (state_of (next_click (state_of (startup faulty_entries example_frames)))) = 0
   \<and> map slug (loaded (state_of (next_click (state_of (startup faulty_entries example_frames)))))
     = [''faulty'', ''template'']
   \<and> thrown (startup unstartable_entries example_frames) = Some (ModuleError ''start'')
   \<and> pending (window_timeouts (state_of (startup unstartable_entries example_frames))) = []"
  by (simp add: page_defs page_more_defs)

lemma refused_first_request_stays_synthetic:
  assumes "stream am = None" and "source am = None" and "\<not> isLive am"
  shows "fst (enableLiveInput (Refused e) (am, md)) = False
         \<and> \<not> isLive (fst (snd (enableLiveInput (Refused e) (am, md))))
         \<and> stream (fst (snd (enableLiveInput (Refused e) (am, md)))) = None
         \<and> snd (snd (enableLiveInput (Refused e) (am, md))) = md
         \<and> isTestMode (fst (snd (enableLiveInput (Refused e) (am, md)))) = isTestMode am"
  using assms
  by (simp add: enableLiveInput_def enableLiveInput_begin_def enableLiveInput_resume_def Let_def)

text \<open>
  C5, on the code. A request that fails while capture is live (a device switch): the
  call answers \<open>false\<close>, but the manager still says it is live and not in test mode, so
  the tick reads the analyser instead of generating the synthetic triple; the stream it
  holds has been stopped and its source node disconnected, and both are still referenced.
\<close>

theorem failed_device_switch_stays_live:
  "fst (enableLiveInput (Refused NotFoundError) live_manager) = False
   \<and> isLive (fst (snd (enableLiveInput (Refused NotFoundError) live_manager)))
   \<and> \<not> isTestMode (fst (snd (enableLiveInput (Refused NotFoundError) live_manager)))
   \<and> stream (fst (snd (enableLiveInput (Refused NotFoundError) live_manager))) = Some 1
   \<and> liveStreams (snd (snd (enableLiveInput (Refused NotFoundError) live_manager))) = []
   \<and> source (fst (snd (enableLiveInput (Refused NotFoundError) live_manager))) = Some 1
   \<and> analyser (fst (snd (enableLiveInput (Refused NotFoundError) live_manager))) = Some []
   \<and> band_sample example_tick (fst (snd (enableLiveInput (Refused NotFoundError) live_manager)))
       = Some (Num 0, Num 0, Num 0)
   \<and> band_sample example_tick new_AudioManager = Some (Num 50, Num 50, Num 50)"
proof -
  let ?am = "fst (snd (enableLiveInput (Refused NotFoundError) live_manager))"
  have state: "fst (enableLiveInput (Refused NotFoundError) live_manager) = False"
    "isLive ?am" "\<not> isTestMode ?am" "stream ?am = Some 1"
    "liveStreams (snd (snd (enableLiveInput (Refused NotFoundError) live_manager))) = []"
    "source ?am = Some 1" "analyser ?am = Some []" "dataArray ?am = Some (replicate 1024 0)"
    by (simp_all add: audio_defs)
  have live: "band_sample example_tick ?am = Some (Num 0, Num 0, Num 0)"
    unfolding example_tick_def
    by (rule silent_sample) (simp_all add: state)
  have synthetic: "band_sample example_tick new_AudioManager = Some (Num 50, Num 50, Num 50)"
    by (rule synthetic_sample)
  from state live synthetic show ?thesis
    by simp
qed

lemma enableLiveInput_begin_releases:
  assumes "one_handle (am, md)"
  shows "liveStreams (snd (enableLiveInput_begin (am, md))) = []"
    and "stream (fst (enableLiveInput_begin (am, md))) = stream am"
    and "streamSeq (snd (enableLiveInput_begin (am, md))) = streamSeq md"
proof -
  show "liveStreams (snd (enableLiveInput_begin (am, md))) = []"
    using assms
    by (auto simp: one_handle_def enableLiveInput_begin_def Let_def split: option.splits)
  show "stream (fst (enableLiveInput_begin (am, md))) = stream am"
    and "streamSeq (snd (enableLiveInput_begin (am, md))) = streamSeq md"
    by (simp_all add: enableLiveInput_begin_def Let_def split: option.splits)
qed

lemma enableLiveInput_resume_one_handle:
  assumes "liveStreams md = []"
  shows "one_handle (snd (enableLiveInput_resume perm (am, md)))"
  using assms
  by (cases perm)
    (simp_all add: one_handle_def enableLiveInput_resume_def Let_def split: option.splits)

lemma audio_step_one_handle:
  assumes "one_handle s"
  shows "one_handle (audio_step ev s)"
proof -
  obtain am md where s: "s = (am, md)" by (cases s) auto
  show ?thesis
  proof (cases ev)
    case (SetTestMode b)
    have "stream (setTestMode b am) = stream am"
      by (simp add: setTestMode_def Let_def split: option.splits)
    with assms s SetTestMode show ?thesis
      by (simp add: one_handle_def)
  next
    case (EnableLiveInput perm)
    obtain am1 md1 where b: "enableLiveInput_begin (am, md) = (am1, md1)"
      by (cases "enableLiveInput_begin (am, md)") auto
    from enableLiveInput_begin_releases(1) [of am md] assms s b have "liveStreams md1 = []"
      by simp
    then have "one_handle (snd (enableLiveInput_resume perm (am1, md1)))"
      by (rule enableLiveInput_resume_one_handle)
    with s b EnableLiveInput show ?thesis
      by (simp add: enableLiveInput_def)
  qed
qed

lemma run_audio_one_handle:
  "one_handle s \<Longrightarrow> one_handle (run_audio es s)"
  unfolding run_audio_def
  by (induction es arbitrary: s) (simp_all add: audio_step_one_handle)

lemma setTestMode_fields:
  "stream (setTestMode b am) = stream am" "source (setTestMode b am) = source am"
  "analyser (setTestMode b am) = analyser am" "isLive (setTestMode b am) = isLive am"
  "isTestMode (setTestMode b am) = b"
  by (simp_all add: setTestMode_def Let_def split: option.splits)

lemma setTestMode_context:
  "audioCtx (setTestMode b am) =
     (if b \<and> audioCtx am = Some Running then Some Suspended
      else if \<not> b \<and> audioCtx am = Some Suspended then Some Running
      else audioCtx am)"
  by (simp add: setTestMode_def Let_def split: option.splits)

text \<open>
  C9, as the code has it. From a new manager, after any sequence of test-mode switches
  and \<open>enableLiveInput\<close> calls that each run to their end: at most one capture handle is
  held, and it is the stream the manager references. A switch of the test mode releases
  and acquires nothing: the capture side, the stream, the source node and the analyser
  stay as they are, and only a running context is suspended (going synthetic) or a
  suspended one resumed (going live). A handle is released only by \<open>enableLiveInput\<close>, which
  stops the stream it holds before it asks for the next one.
\<close>

theorem at_most_one_capture_handle:
  assumes "s = run_audio es (new_AudioManager, no_capture c)"
  shows "length (liveStreams (snd s)) \<le> 1
         \<and> set (liveStreams (snd s)) \<subseteq> set_option (stream (fst s))
         \<and> (\<forall>b. snd (audio_step (SetTestMode b) s) = snd s
                \<and> stream (fst (audio_step (SetTestMode b) s)) = stream (fst s)
                \<and> source (fst (audio_step (SetTestMode b) s)) = source (fst s)
                \<and> analyser (fst (audio_step (SetTestMode b) s)) = analyser (fst s)
                \<and> audioCtx (fst (audio_step (SetTestMode b) s)) =
                    (if b \<and> audioCtx (fst s) = Some Running then Some Suspended
                     else if \<not> b \<and> audioCtx (fst s) = Some Suspended then Some Running
                     else audioCtx (fst s)))
         \<and> liveStreams (snd (enableLiveInput_begin s)) = []"
proof -
  have "one_handle (new_AudioManager, no_capture c)"
    by (simp add: one_handle_def no_capture_def)
  then have inv: "one_handle s"
    unfolding assms by (rule run_audio_one_handle)
  obtain am md where s: "s = (am, md)" by (cases s) auto
  from inv s have "length (liveStreams md) \<le> 1" "set (liveStreams md) \<subseteq> set_option (stream am)"
    by (auto simp: one_handle_def)
  moreover from inv s have "liveStreams (snd (enableLiveInput_begin s)) = []"
    using enableLiveInput_begin_releases(1) [of am md] by simp
  ultimately show ?thesis
    by (simp add: s setTestMode_fields setTestMode_context)
qed

theorem at_most_one_capture_handle_witness:
  "liveStreams (snd (run_audio [EnableLiveInput Granted, SetTestMode True, EnableLiveInput Granted]
      (new_AudioManager, no_capture Running))) = [2]
   \<and> stream (fst (run_audio [EnableLiveInput Granted, SetTestMode True, EnableLiveInput Granted]
      (new_AudioManager, no_capture Running))) = Some 2"
proof -
  let ?s = "run_audio [EnableLiveInput Granted, SetTestMode True, EnableLiveInput Granted]
      (new_AudioManager, no_capture Running)"
  have "liveStreams (snd ?s) = [2]" "stream (fst ?s) = Some 2"
    by (simp_all add: audio_defs)
  with at_most_one_capture_handle [of ?s _ Running, OF refl] show ?thesis
    by simp
qed

theorem mode_toggle_keeps_handle_counterexample:
  "liveStreams (snd (run_audio [EnableLiveInput Granted] (new_AudioManager, no_capture Running))) = [1]
   \<and> liveStreams (snd (run_audio [EnableLiveInput Granted, SetTestMode True]
        (new_AudioManager, no_capture Running))) = [1]
   \<and> isTestMode (fst (run_audio [EnableLiveInput Granted, SetTestMode True]
        (new_AudioManager, no_capture Running)))
   \<and> liveStreams (snd (run_audio [EnableLiveInput Granted, SetTestMode True, SetTestMode False]
        (new_AudioManager, no_capture Running))) = [1]
   \<and> streamSeq (snd (run_audio [EnableLiveInput Granted, SetTestMode True, SetTestMode False]
        (new_AudioManager, no_capture Running))) = 1"
  by (simp add: audio_defs)

text \<open>
  The microphone button has two click listeners, and each calls \<open>enableLiveInput\<close>: both
  calls reach their \<open>await\<close> before either goes on, so neither sees a stream to stop, and
  the stream of the first is never stopped.
\<close>

lemma overlapping_requests_hold_two_streams:
  "liveStreams (snd (snd (enableLiveInput_resume Granted (snd (enableLiveInput_resume Granted
      (enableLiveInput_begin (enableLiveInput_begin (new_AudioManager, no_capture Running)))))))) = [1, 2]"
  by (simp add: audio_defs)

section \<open>Further properties of the model\<close>

text \<open>
  The draw loop of a running \<open>TemplateAnimation\<close>: when the browser runs the pending
  callback, \<open>drawFrame\<close> registers the next one and \<open>frameId\<close> follows, so the module keeps
  exactly one callback of its own.
\<close>

lemma drawFrame_keeps_one_callback:
  assumes "h \<in> set (rafPending f)"
  shows "\<exists>a'. run_frame_callback h (a, f) =
           (a', \<lparr>rafSeq = Suc (rafSeq f), rafPending = removeAll h (rafPending f) @ [Suc (rafSeq f)]\<rparr>)
         \<and> frameId a' = Some (Suc (rafSeq f))"
  using assms
  by (cases f)
    (simp add: run_frame_callback_def TemplateAnimation_drawFrame_def requestAnimationFrame_def
      Let_def)

text \<open>Without a loaded entry \<open>init\<close> never starts rotation.\<close>

lemma init_needs_an_entry:
  "init [] f = None" "entries \<noteq> [] \<Longrightarrow> init entries f = Some (startup entries f)"
  by (simp_all add: init_def)

text \<open>
  A tick on the example page in synthetic mode hands the template module the sample
  \<open>(50, 50, 50)\<close>.
\<close>

lemma example_tick_delivers:
  "map (\<lambda>it. map_option (\<lambda>m. (LOW (self m), MID (self m), HIGH (self m))) (item_instance it))
     (loaded (snd (state_of (loop example_tick
        (new_AudioManager, state_of (startup example_entries example_frames))))))
   = [Some (Num 50, Num 50, Num 50), None]"
  by (simp add: page_defs page_more_defs TemplateAnimation_updateFrequencies_def)

text \<open>
  The scaling of a live average is computed in doubles. For a high band whose bins
  average 85, \<open>(85 / 255) * 100 * 1.2\<close> is a double just below 40 and the module is
  handed 39, where exact arithmetic would give 40.
\<close>

lemma third_scaled:
  "js_mul (js_div (Num 85) (Num 255)) (Num 100) = Num (4691249611844266 / 2 ^ 47)"
proof -
  have d: "to_number (1 / 3) = Num (6004799503160661 / 2 ^ 54)"
    using to_number_bounded(1) [of "1 / 3"] by (simp add: nearest_double_third)
  have fl: "\<lfloor>(150119987579016525 :: real) / 32\<rfloor> = 4691249611844266" by (simp add: floor_eq_iff)
  have r: "round_half_even (150119987579016525 / 32) = 4691249611844266"
    unfolding round_half_even_def fl by simp
  have "to_number (6004799503160661 / 2 ^ 54 * 100)
          = Num (real_of_int 4691249611844266 * 2 powr (real_of_int 5 - 52))"
    by (rule to_number_evalI) (simp_all add: powr_neg_numeral r)
  then show ?thesis
    by (simp add: d powr_neg_numeral)
qed

lemma third_boosted:
  "js_mul (js_mul (js_div (Num 85) (Num 255)) (Num 100)) (to_number 1.2)
     = Num (5629499534213119 / 2 ^ 47)"
proof -
  have s: "js_mul (js_div (Num 85) (Num 255)) (Num 100) = Num (4691249611844266 / 2 ^ 47)"
    by (rule third_scaled)
  have fl: "\<lfloor>(12676506002282291744402219921135 :: real) / 2251799813685248\<rfloor> = 5629499534213118"
    by (simp add: floor_eq_iff)
  have r: "round_half_even (12676506002282291744402219921135 / 2251799813685248) = 5629499534213119"
    unfolding round_half_even_def fl by simp
  have "to_number (4691249611844266 / 2 ^ 47 * (5404319552844595 / 2 ^ 52))
          = Num (real_of_int 5629499534213119 * 2 powr (real_of_int 5 - 52))"
    by (rule to_number_evalI) (simp_all add: powr_neg_numeral r)
  then show ?thesis
    unfolding s by (simp add: boost_double powr_neg_numeral)
qed

lemma third_delivered:
  "Math_floor (clamp (js_mul (js_mul (js_div (Num 85) (Num 255)) (Num 100)) (to_number 1.2))) = Num 39"
  unfolding third_boosted by (simp add: clamp_Num Math_floor_def)

text \<open>
  In general: an exception of the current module's \<open>stop\<close>, or of the target module's
  \<open>start\<close>, leaves \<open>showIndex\<close> uncaught, and a request that fails while capture is live
  never clears the live flag.
\<close>

lemma showIndex_stop_exception_propagates:
  assumes "currentItem p = Some k" and "js_index (loaded p) (int k) = Some it"
    and "item_instance it = Some inst" and "stop inst = Some m"
    and "m (self inst, window_frames p) = Thrown e af"
  shows "showIndex i p = Thrown e (store_instance k inst af p)"
  using assms by (simp add: showIndex_def call_lifecycle_def)

lemma call_lifecycle_start_exception:
  assumes "js_index (loaded p) (int k) = Some it"
    and "item_instance it = Some inst" and "start inst = Some m"
    and "m (self inst, window_frames p) = Thrown e af"
  shows "call_lifecycle start k p = Thrown e (store_instance k inst af p)"
  using assms by (simp add: call_lifecycle_def)

lemma showIndex_start_exception_propagates:
  assumes "currentItem p = None" and "js_index (loaded p) i = Some it"
    and "item_instance it = Some inst" and "start inst = Some m"
    and "m (self inst, window_frames p) = Thrown e af"
  shows "thrown (showIndex i p) = Some e"
proof -
  from assms(2) have i: "0 \<le> i" "i < int (length (loaded p))" and it: "it = loaded p ! nat i"
    by (auto simp: js_index_def split: if_splits)
  let ?p3 = "hideAll p\<lparr>loaded := (loaded (hideAll p))
      [nat i := (loaded (hideAll p) ! nat i)\<lparr>view_display := DisplayBlock\<rparr>]\<rparr>"
  have idx: "js_index (loaded (hideAll p)) i = Some (loaded (hideAll p) ! nat i)"
    using i by (simp add: js_index_def hideAll_def)
  have a: "js_index (loaded ?p3) (int (nat i)) = Some (it\<lparr>view_display := DisplayBlock\<rparr>)"
    using i it by (simp add: js_index_def hideAll_def)
  have b: "item_instance (it\<lparr>view_display := DisplayBlock\<rparr>) = Some inst"
    using assms(3) by simp
  have c: "m (self inst, window_frames ?p3) = Thrown e af"
    using assms(5) by (simp add: hideAll_def)
  from call_lifecycle_start_exception [OF a b assms(4) c] assms(1) idx show ?thesis
    by (simp add: showIndex_def Let_def)
qed

lemma refused_switch_stays_live:
  assumes "isLive am" and "stream am = Some s"
  shows "fst (enableLiveInput (Refused e) (am, md)) = False
         \<and> isLive (fst (snd (enableLiveInput (Refused e) (am, md))))
         \<and> isTestMode (fst (snd (enableLiveInput (Refused e) (am, md)))) = isTestMode am
         \<and> stream (fst (snd (enableLiveInput (Refused e) (am, md)))) = Some s
         \<and> s \<notin> set (liveStreams (snd (snd (enableLiveInput (Refused e) (am, md)))))"
  using assms
  by (simp add: enableLiveInput_def enableLiveInput_begin_def enableLiveInput_resume_def Let_def
      split: option.splits)

end
